theory Spec2Isabelle
  imports Main "HOL-Library.Sublist" "HOL-Library.Multiset" "HOL-Library.Word" "HOL-Library.Char_ord"
begin

section \<open>Go strings and the \<open>strings\<close> package\<close>

text \<open>
  A Go string is a sequence of bytes, so it is a \<open>char list\<close> here (a \<open>char\<close> is
  one byte); a rune outside ASCII is its UTF-8 bytes. A backslash and the quote characters
  cannot be written inside a string literal, so they are named.
\<close>

definition bslash :: char where "bslash = CHR 0x5C"
definition nl :: char where "nl = CHR 0x0A"
definition backtick :: char where "backtick = CHR 0x60"
definition squote :: char where "squote = CHR 0x27"
definition dquote :: char where "dquote = CHR 0x22"

datatype error = SliceBoundsOutOfRange | IndexOutOfRange

text \<open>\<open>strings.Index\<close>: the byte offset of the first occurrence, \<open>-1\<close> when there is none.\<close>

fun Index :: "string \<Rightarrow> string \<Rightarrow> int" where
  "Index [] sub = (if sub = [] then 0 else - 1)"
| "Index (c # cs) sub =
     (if prefix sub (c # cs) then 0
      else (let r = Index cs sub in if r < 0 then - 1 else r + 1))"

text \<open>\<open>strings.Contains(s, substr)\<close> is \<open>Index(s, substr) >= 0\<close>.\<close>

definition Contains :: "string \<Rightarrow> string \<Rightarrow> bool" where
  "Contains s sub = (0 \<le> Index s sub)"

text \<open>
  \<open>strings.ReplaceAll\<close>: the leftmost occurrences of \<open>old\<close>, none overlapping another,
  are replaced from left to right. For an empty \<open>old\<close> Go inserts \<open>new\<close> before every UTF-8
  sequence and at the end; the model inserts it before every byte, which is the same on
  ASCII text (no call of this package passes an empty \<open>old\<close> for a token it discovered).
\<close>

fun ReplaceAll :: "string \<Rightarrow> string \<Rightarrow> string \<Rightarrow> string" where
  "ReplaceAll [] old new = (if old = [] then new else [])"
| "ReplaceAll (c # cs) old new =
     (if old = [] then new @ c # ReplaceAll cs old new
      else if prefix old (c # cs) then new @ ReplaceAll (drop (length old) (c # cs)) old new
      else c # ReplaceAll cs old new)"

text \<open>
  \<open>strings.Split(s, sep)\<close> for a separator of one byte, the only way the package calls it
  (with a newline): it returns the pieces between the separators, so one piece more than
  there are separators, and \<open>[""]\<close> for the empty string.
\<close>

fun Split :: "string \<Rightarrow> char \<Rightarrow> string list" where
  "Split [] sep = [[]]"
| "Split (c # cs) sep =
     (if c = sep then [] # Split cs sep
      else (case Split cs sep of [] \<Rightarrow> [[c]] | l # ls \<Rightarrow> (c # l) # ls))"

text \<open>\<open>strings.Join\<close>.\<close>

fun Join :: "string list \<Rightarrow> string \<Rightarrow> string" where
  "Join [] sep = []"
| "Join [l] sep = l"
| "Join (l # ls) sep = l @ sep @ Join ls sep"

text \<open>
  \<open>strings.Title\<close> maps the letter that begins a word to its title case, for the letters
  and the spaces of all of Unicode; the functions below take it as a parameter. For the
  examples, \<open>Title_ascii\<close> is \<open>strings.Title\<close> on a string of ASCII bytes: there a
  byte is a separator when it is neither a letter, a digit nor an underscore, and the
  title case of a lower-case letter is the upper-case letter. It is applied to ASCII
  strings only.
\<close>

definition isAlnum :: "char \<Rightarrow> bool" where
  "isAlnum c = ((CHR ''0'' \<le> c \<and> c \<le> CHR ''9'') \<or> (CHR ''a'' \<le> c \<and> c \<le> CHR ''z'')
                \<or> (CHR ''A'' \<le> c \<and> c \<le> CHR ''Z''))"

definition isSeparator :: "char \<Rightarrow> bool" where
  "isSeparator c = (if of_char c \<le> (0x7F :: nat) then \<not> (isAlnum c \<or> c = CHR ''_'') else False)"

definition ToTitle :: "char \<Rightarrow> char" where
  "ToTitle c = (if CHR ''a'' \<le> c \<and> c \<le> CHR ''z'' then char_of (of_char c - (32 :: nat)) else c)"

fun Title_from :: "char \<Rightarrow> string \<Rightarrow> string" where
  "Title_from prev [] = []"
| "Title_from prev (c # cs) = (if isSeparator prev then ToTitle c else c) # Title_from c cs"

definition Title_ascii :: "string \<Rightarrow> string" where
  "Title_ascii s = Title_from (CHR '' '') s"

text \<open>A slice expression \<open>s[lo:]\<close> or \<open>s[:hi]\<close> panics when its bound is out of range.\<close>

definition slice_from :: "string \<Rightarrow> int \<Rightarrow> error + string" where
  "slice_from s lo =
     (if lo < 0 \<or> int (length s) < lo then Inl SliceBoundsOutOfRange else Inr (drop (nat lo) s))"

definition slice_to :: "string \<Rightarrow> int \<Rightarrow> error + string" where
  "slice_to s hi =
     (if hi < 0 \<or> int (length s) < hi then Inl SliceBoundsOutOfRange else Inr (take (nat hi) s))"

section \<open>Helpers of the package kept in another file\<close>

text \<open>
  Modelled from the spec: \<open>Unique\<close> is not among the sources. The spec calls its result
  the deduplicated ordered collection: every distinct string once, in the order of the
  first occurrences.
\<close>

fun Unique_from :: "string list \<Rightarrow> string list \<Rightarrow> string list" where
  "Unique_from seen [] = []"
| "Unique_from seen (x # xs) =
     (if x \<in> set seen then Unique_from seen xs else x # Unique_from (x # seen) xs)"

definition Unique :: "string list \<Rightarrow> string list" where
  "Unique xs = Unique_from [] xs"

text \<open>
  Modelled from the spec: \<open>ReverseStringArray\<close> is not among the sources; by its name and
  by the spec (discovery order in reverse) it returns the slice in the opposite order.
\<close>

definition ReverseStringArray :: "string list \<Rightarrow> string list" where
  "ReverseStringArray ss = rev ss"

section \<open>Sources of randomness\<close>

text \<open>
  \<open>crypto/rand.Read\<close> on a buffer of one byte: the \<open>i\<close>-th call yields a byte, or fails
  (\<open>None\<close>). \<open>math/rand.Intn(n)\<close>: the \<open>i\<close>-th call yields a number below \<open>n\<close>, taken
  from an arbitrary stream of draws; reseeding is part of that stream.
\<close>

type_synonym crand = "nat \<Rightarrow> 8 word option"
type_synonym mrand = "nat \<Rightarrow> nat"

definition Intn :: "mrand \<Rightarrow> nat \<Rightarrow> nat \<Rightarrow> nat" where
  "Intn rnd p n = rnd p mod n"

text \<open>
  An order chosen from outside (a shuffle, the order in which \<open>range\<close> visits a map) is
  given as the list of the indices in the order in which the elements are taken; a list
  that is no rearrangement of the indices leaves the elements as they are.
\<close>

definition rearrange :: "nat list \<Rightarrow> 'a list \<Rightarrow> 'a list" where
  "rearrange pick xs = (if sort pick = [0..<length xs] then map (\<lambda>i. xs ! i) pick else xs)"

section \<open>StripUPXHeaders\<close>

definition raw :: "string \<Rightarrow> string" where
  \<comment> \<open>a raw string literal of the source, with its backslashes written as slashes\<close>
  "raw s = map (\<lambda>c. if c = CHR ''/'' then bslash else c) s"

definition header :: "string list" where
  "header =
    [raw ''/x49/x6e/x66/x6f/x3a/x20/x54/x68/x69/x73'',
     raw ''/x20/x66/x69/x6c/x65/x20/x69/x73/x20/x70'',
     raw ''/x61/x63/x6b/x65/x64/x20/x77/x69/x74/x68'',
     raw ''/x20/x74/x68/x65/x20/x55/x50/x58/x20/x65'',
     raw ''/x78/x65/x63/x75/x74/x61/x62/x6c/x65/x20'',
     raw ''/x70/x61/x63/x6b/x65/x72/x20/x68/x74/x74'',
     raw ''/x70/x3a/x2f/x2f/x75/x70/x78/x2e/x73/x66'',
     raw ''/x2e/x6e/x65/x74/x20/x24/x0a/x00/x24/x49'',
     raw ''/x64/x3a/x20/x55/x50/x58/x20/x33/x2e/x39'',
     raw ''/x36/x20/x43/x6f/x70/x79/x72/x69/x67/x68'',
     raw ''/x74/x20/x28/x43/x29/x20/x31/x39/x39/x36'',
     raw ''/x2d/x32/x30/x32/x30/x20/x74/x68/x65/x20'',
     raw ''/x55/x50/x58/x20/x54/x65/x61/x6d/x2e/x20'',
     raw ''/x41/x6c/x6c/x20/x52/x69/x67/x68/x74/x73'',
     raw ''/x20/x52/x65/x73/x65/x72/x76/x65/x64/x2e'',
     raw ''/x55/x50/x58/x21'']"

text \<open>\<open>hex.EncodeToString\<close>: two lower-case hexadecimal digits for each byte.\<close>

definition hexdigit :: "nat \<Rightarrow> char" where
  "hexdigit n = ''0123456789abcdef'' ! (n mod 16)"

definition EncodeToString :: "8 word list \<Rightarrow> string" where
  "EncodeToString bs = concat (map (\<lambda>b. [hexdigit (unat b div 16), hexdigit (unat b mod 16)]) bs)"

text \<open>
  The inner loop: while the replacement is shorter than the fragment, read one random byte
  and append its \<open>\xNN\<close> form. \<open>None\<close> is the failed read, on which the function
  returns false. The position in the random stream is returned with the string.
\<close>

function sedLoop :: "crand \<Rightarrow> nat \<Rightarrow> string \<Rightarrow> string \<Rightarrow> (string \<times> nat) option" where
  "sedLoop rnd p v sedString =
     (if length sedString < length v then
        (case rnd p of
           None \<Rightarrow> None
         | Some b \<Rightarrow> sedLoop rnd (Suc p) v (sedString @ [bslash, CHR ''x''] @ EncodeToString [b]))
      else Some (sedString, p))"
  by pat_completeness auto
termination
  by (relation "measure (\<lambda>(rnd, p, v, s). length v - length s)") (auto simp: EncodeToString_def)

declare sedLoop.simps [simp del]

text \<open>The text of \<open>n\<close> units made from the bytes that the stream yields from position \<open>p\<close> on.\<close>

definition randomUnits :: "crand \<Rightarrow> nat \<Rightarrow> nat \<Rightarrow> string" where
  "randomUnits rnd p n =
     concat (map (\<lambda>i. [bslash, CHR ''x''] @ EncodeToString [the (rnd i)]) [p..<p + n])"

text \<open>The number of \<open>\xNN\<close> units of a list of fragments, four characters each.\<close>

definition units :: "string list \<Rightarrow> nat" where
  "units vs = sum_list (map (\<lambda>v. length v div 4) vs)"

text \<open>
  \<open>ExecCommand\<close> is not among the sources: it runs an external tool and reports whether
  it succeeded. It is a parameter \<open>exec\<close>: its \<open>k\<close>-th call, given the name of the tool
  and the arguments, takes the content of the file to the boolean and the content that the
  tool leaves. The outer loop stops at the first failure. The function returns the boolean
  of the source, with the arguments of the calls that it made, in their order, and the
  content of the file after them.
\<close>

type_synonym tool = "nat \<Rightarrow> string \<Rightarrow> string list \<Rightarrow> string \<Rightarrow> bool \<times> string"

definition sedArgs :: "string \<Rightarrow> string \<Rightarrow> string \<Rightarrow> string list" where
  "sedArgs v sedString infile = [''-i'', ''s/'' @ v @ ''/'' @ sedString @ ''/g'', infile]"

fun StripUPXHeaders_loop ::
  "crand \<Rightarrow> tool \<Rightarrow> string \<Rightarrow> nat \<Rightarrow> nat \<Rightarrow> string list \<Rightarrow> string
     \<Rightarrow> bool \<times> string list list \<times> string" where
  "StripUPXHeaders_loop rnd exec infile p k [] binary = (True, [], binary)"
| "StripUPXHeaders_loop rnd exec infile p k (v # vs) binary =
     (case sedLoop rnd p v [] of
        None \<Rightarrow> (False, [], binary)
      | Some (sedString, p') \<Rightarrow>
          (let (result, binary') = exec k ''sed'' (sedArgs v sedString infile) binary
           in if result
              then (let (r, calls, b) = StripUPXHeaders_loop rnd exec infile p' (Suc k) vs binary'
                    in (r, sedArgs v sedString infile # calls, b))
              else (False, [sedArgs v sedString infile], binary')))"

definition StripUPXHeaders ::
  "crand \<Rightarrow> tool \<Rightarrow> string \<Rightarrow> string \<Rightarrow> bool \<times> string list list \<times> string" where
  "StripUPXHeaders rnd exec infile binary = StripUPXHeaders_loop rnd exec infile 0 0 header binary"

text \<open>
  Modelled from the spec: the stream editor is an external tool, run by \<open>ExecCommand\<close>.
  The spec describes its effect as an in-place byte-for-byte substitution: every \<open>\xNN\<close>
  unit of the two sides of the script \<open>s/A/B/g\<close> stands for one byte, and each occurrence
  of the bytes of \<open>A\<close> in the binary is replaced by the bytes of \<open>B\<close>. Whether the
  \<open>k\<close>-th call succeeds is a parameter \<open>ok\<close>; what a failed call leaves in the file
  is a parameter \<open>fail\<close>.
\<close>

definition hexval :: "char \<Rightarrow> nat" where
  "hexval c = (if CHR ''0'' \<le> c \<and> c \<le> CHR ''9'' then of_char c - 48
               else if CHR ''a'' \<le> c \<and> c \<le> CHR ''f'' then of_char c - 87
               else if CHR ''A'' \<le> c \<and> c \<le> CHR ''F'' then of_char c - 55 else 0)"

fun unescape :: "string \<Rightarrow> string" where
  "unescape (a # b # h # l # rest) =
     (if a = bslash \<and> b = CHR ''x'' then char_of (16 * hexval h + hexval l) # unescape rest
      else a # unescape (b # h # l # rest))"
| "unescape s = s"

definition sed_subst :: "string \<Rightarrow> string \<Rightarrow> string \<Rightarrow> string" where
  "sed_subst binary v sedString = ReplaceAll binary (unescape v) (unescape sedString)"

definition sedScript :: "string \<Rightarrow> (string \<times> string) option" where
  "sedScript script =
     (case Split script (CHR ''/'') of
        [s, a, b, g] \<Rightarrow> if s = ''s'' \<and> g = ''g'' then Some (a, b) else None
      | _ \<Rightarrow> None)"

definition ExecCommand_sed :: "(nat \<Rightarrow> bool) \<Rightarrow> (nat \<Rightarrow> string \<Rightarrow> string) \<Rightarrow> tool" where
  "ExecCommand_sed ok fail k name args binary =
     (if ok k then
        (case args of
           [i, script, file] \<Rightarrow>
             (case sedScript script of
                Some (a, b) \<Rightarrow> (True, sed_subst binary a b)
              | None \<Rightarrow> (True, binary))
         | _ \<Rightarrow> (True, binary))
      else (False, fail k binary))"

section \<open>GenerateTyposquatName\<close>

text \<open>
  The two alphabets, every rune as its UTF-8 bytes: the letter O and eleven look-alikes,
  and the same preceded by the digit zero. The name has 128 runes: the first from the
  letters, drawn before the loop, each of the other 127 from the mixed alphabet. The
  position in the stream of draws is returned with the name.
\<close>

definition letterRunes :: "string list" where
  "letterRunes =
    [''O'', [CHR 0xC3, CHR 0x93], [CHR 0xC3, CHR 0x95], [CHR 0xC3, CHR 0x94],
     [CHR 0xC3, CHR 0x92], [CHR 0xC3, CHR 0x96], [CHR 0xC5, CHR 0x8C], [CHR 0xC5, CHR 0x8E],
     [CHR 0xC5, CHR 0x90], [CHR 0xC6, CHR 0xA0], [CHR 0xCE, CHR 0x98], [CHR 0xCE, CHR 0x9F]]"

definition mixedRunes :: "string list" where
  "mixedRunes = ''0'' # letterRunes"

definition GenerateTyposquatName :: "mrand \<Rightarrow> nat \<Rightarrow> string \<times> nat" where
  "GenerateTyposquatName rnd p =
     (concat (letterRunes ! Intn rnd p (length letterRunes)
                # map (\<lambda>i. mixedRunes ! Intn rnd (p + i) (length mixedRunes)) [1..<128]),
      p + 128)"

text \<open>The name alone, for the statements below.\<close>

definition typosquat :: "mrand \<Rightarrow> nat \<Rightarrow> string" where
  "typosquat rnd p = fst (GenerateTyposquatName rnd p)"

section \<open>GenerateStringFunc\<close>

text \<open>
  \<open>GenerateBitshift\<close> is not among the sources: it turns one byte into the text of an
  expression, and is a parameter \<open>gb\<close>. \<open>fmt.Sprintf\<close> is a function of the Go library,
  called here with a format and one string; it is a parameter \<open>sf\<close>. The name of the
  function is spliced into the format, so a percent sign in the name is part of the format
  that \<open>fmt.Sprintf\<close> interprets; the format written in the source has the single verb
  \<open>%s\<close>.
\<close>

type_synonym sprintf = "string \<Rightarrow> string \<Rightarrow> string"

definition GenerateStringFunc :: "sprintf \<Rightarrow> (char \<Rightarrow> string) \<Rightarrow> string \<Rightarrow> string \<Rightarrow> string" where
  "GenerateStringFunc sf gb txt function =
     sf (''func '' @ function @ ''() string { EAX := uint8(obUnsafe.Sizeof(true));''
           @ ''return string('' @ [nl] @ ''[]byte{'' @ [nl] @ ''%s,'' @ [nl] @ ''},'' @ [nl] @ '')}'')
        (Join (map gb txt) ('','' @ [nl]))"

text \<open>
  For the examples: \<open>fmt.Sprintf\<close> with one string operand on a format whose verbs are
  \<open>%s\<close> and \<open>%%\<close> only. The operand is put in place of the first \<open>%s\<close>; a later
  \<open>%s\<close> has no operand left. The flag tells whether the operand has been used; an operand
  that no verb has used is reported at the end. The examples use it on formats built from
  generated names, which hold no percent sign.
\<close>

fun Sprintf_from :: "bool \<Rightarrow> string \<Rightarrow> string \<Rightarrow> string" where
  "Sprintf_from used [] a = (if used then [] else ''%!(EXTRA string='' @ a @ '')'')"
| "Sprintf_from used [c] a = (if c = CHR ''%'' then ''%!(NOVERB)'' else [c]) @ Sprintf_from used [] a"
| "Sprintf_from used (c # d # rest) a =
     (if c = CHR ''%'' \<and> d = CHR ''s''
      then (if used then ''%!s(MISSING)'' else a) @ Sprintf_from True rest a
      else if c = CHR ''%'' \<and> d = CHR ''%'' then CHR ''%'' # Sprintf_from used rest a
      else c # Sprintf_from used (d # rest) a)"

definition Sprintf_s :: sprintf where
  "Sprintf_s format a = Sprintf_from False format a"

section \<open>ObfuscateStrings\<close>

text \<open>
  \<open>Secrets\<close> is a map from the literal with its quotes to a slice of strings, the
  plaintext and the name of the accessor. It is a list of pairs with one pair for each
  key; the order in which \<open>range\<close> visits a map is not specified, so the function takes
  it as a parameter \<open>pick\<close>, by which the entries are rearranged.
\<close>

type_synonym secrets = "(string \<times> string list) list"

definition tickTypes :: "char list" where
  "tickTypes = [backtick, squote, dquote]"

text \<open>
  \<open>FindAllString\<close> for the expression \<open>v + ".*?" + v\<close>: the matches from left to right,
  none overlapping another. A match starts at a delimiter and ends at the next one; the
  dot matches no newline, so there is no match at a delimiter that is followed by a newline
  before the next delimiter.
\<close>

function FindAllString_tick :: "char \<Rightarrow> string \<Rightarrow> string list" where
  "FindAllString_tick v [] = []"
| "FindAllString_tick v (c # cs) =
     (if c = v then
        (case dropWhile (\<lambda>x. x \<noteq> v \<and> x \<noteq> nl) cs of
           [] \<Rightarrow> FindAllString_tick v cs
         | d # rest \<Rightarrow>
             if d = v
             then (v # takeWhile (\<lambda>x. x \<noteq> v \<and> x \<noteq> nl) cs @ [v]) # FindAllString_tick v rest
             else FindAllString_tick v cs)
      else FindAllString_tick v cs)"
  by pat_completeness auto
termination
proof (relation "measure (\<lambda>(v, s). length s)")
  fix v c :: char and cs rest :: string and d :: char
  assume "dropWhile (\<lambda>x. x \<noteq> v \<and> x \<noteq> nl) cs = d # rest"
  then have "Suc (length rest) = length (dropWhile (\<lambda>x. x \<noteq> v \<and> x \<noteq> nl) cs)"
    by simp
  also have "\<dots> \<le> length cs"
    by (rule length_dropWhile_le)
  finally show "((v, rest), (v, c # cs)) \<in> measure (\<lambda>(v, s). length s)"
    by simp
qed auto

text \<open>
  The inner loop over the words of one delimiter: a word longer than its two quotes and
  free of backslashes is added with a fresh name when the map does not hold it yet.
\<close>

fun register :: "mrand \<Rightarrow> nat \<Rightarrow> secrets \<Rightarrow> string list \<Rightarrow> secrets \<times> nat" where
  "register rnd p S [] = (S, p)"
| "register rnd p S (w # ws) =
     (if 2 < length w \<and> \<not> Contains w [bslash] then
        (case map_of S w of
           None \<Rightarrow>
             (let secret = drop 1 (take (length w - 1) w);
                  (name, p') = GenerateTyposquatName rnd p
              in register rnd p' (S @ [(w, [secret, name])]) ws)
         | Some _ \<Rightarrow> register rnd p S ws)
      else register rnd p S ws)"

fun discover :: "mrand \<Rightarrow> nat \<Rightarrow> secrets \<Rightarrow> string \<Rightarrow> char list \<Rightarrow> secrets \<times> nat" where
  "discover rnd p S body [] = (S, p)"
| "discover rnd p S body (v # vs) =
     (let (S', p') = register rnd p S (Unique (FindAllString_tick v body))
      in discover rnd p' S' body vs)"

text \<open>
  The loop over the map: an entry with fewer than two strings makes \<open>w[1]\<close> panic. An
  entry whose name contains \<open>leave\<close> puts the plaintext back; any other entry adds its
  accessor function and puts the call in place of the literal.
\<close>

fun replaceSecrets ::
  "sprintf \<Rightarrow> (char \<Rightarrow> string) \<Rightarrow> secrets \<Rightarrow> string \<Rightarrow> string \<Rightarrow> error + (string \<times> string)" where
  "replaceSecrets sf gb [] body funcString = Inr (body, funcString)"
| "replaceSecrets sf gb ((k, w) # es) body funcString =
     (if length w < 2 then Inl IndexOutOfRange
      else if \<not> Contains (w ! 1) ''leave''
      then replaceSecrets sf gb es (ReplaceAll body k (w ! 1 @ ''()''))
             (funcString @ GenerateStringFunc sf gb (w ! 0) (w ! 1) @ [nl])
      else replaceSecrets sf gb es (ReplaceAll body k (w ! 0)) funcString)"

text \<open>
  The function returns the rewritten text with the map and the position in the stream of
  draws as it leaves them.
\<close>

definition ObfuscateStrings ::
  "mrand \<Rightarrow> nat list \<Rightarrow> sprintf \<Rightarrow> (char \<Rightarrow> string) \<Rightarrow> nat \<Rightarrow> secrets \<Rightarrow> string
     \<Rightarrow> error + (string \<times> secrets \<times> nat)" where
  "ObfuscateStrings rnd pick sf gb p Secrets input =
     (let imports = Index input ''import ('' in
      case slice_from input imports of
        Inl e \<Rightarrow> Inl e
      | Inr tail \<Rightarrow>
          (let endimports = Index tail '')'' in
           case slice_to input (imports + endimports + 1) of
             Inl e \<Rightarrow> Inl e
           | Inr importSection \<Rightarrow>
               (case slice_from input (imports + endimports + 1) of
                  Inl e \<Rightarrow> Inl e
                | Inr body \<Rightarrow>
                    (let (S', p') = discover rnd p Secrets body tickTypes in
                     case replaceSecrets sf gb (rearrange pick S') body [] of
                       Inl e \<Rightarrow> Inl e
                     | Inr (body', funcString) \<Rightarrow>
                         Inr (importSection @ body' @ [nl] @ funcString, S', p')))))"

text \<open>
  For the statements below: the offset at which the text is cut into import section and
  body, the body, the literals that the inner loop accepts, and what the loop over the map
  puts in place of the key of an entry.
\<close>

definition splitPoint :: "string \<Rightarrow> nat" where
  "splitPoint input =
     nat (Index input ''import ('' + Index (drop (nat (Index input ''import ('')) input) '')'' + 1)"

definition bodyOf :: "string \<Rightarrow> string" where
  "bodyOf input = drop (splitPoint input) input"

definition registrable :: "string \<Rightarrow> bool" where
  "registrable w = (2 < length w \<and> \<not> Contains w [bslash])"

definition replacement :: "string list \<Rightarrow> string" where
  "replacement w = (if \<not> Contains (w ! 1) ''leave'' then w ! 1 @ ''()'' else w ! 0)"

text \<open>
  The loop over the map, read as two results: the body after the replacements in the order
  of the visit, and the accessor functions of the entries that are not left as they are.
\<close>

definition replaceKeys :: "secrets \<Rightarrow> string \<Rightarrow> string" where
  "replaceKeys es body = fold (\<lambda>(k, w) b. ReplaceAll b k (replacement w)) es body"

definition accessorFuncs :: "sprintf \<Rightarrow> (char \<Rightarrow> string) \<Rightarrow> secrets \<Rightarrow> string" where
  "accessorFuncs sf gb es =
     concat (map (\<lambda>(k, w). GenerateStringFunc sf gb (w ! 0) (w ! 1) @ [nl])
               (filter (\<lambda>(k, w). \<not> Contains (w ! 1) ''leave'') es))"

text \<open>
  A key is a token in quotes, and none of the replacements \<open>R\<close> holds its delimiter or
  occurs in its content.
\<close>

definition tokenSafe :: "string set \<Rightarrow> string \<Rightarrow> bool" where
  "tokenSafe R k = (\<exists>v m. k = v # m @ [v] \<and> v \<notin> set m \<and> (\<forall>r \<in> R. v \<notin> set r \<and> \<not> sublist r m))"

text \<open>
  No occurrence of \<open>k\<close> in the text \<open>pre @ lit @ post\<close> has a byte in common with the
  piece \<open>lit\<close>: an occurrence that begins before the end of the piece ends before the
  piece begins. And the same at the turn of every entry in the loop over the map, where
  the text before and the text after the piece are what the earlier turns have made of
  them.
\<close>

definition overlapFree :: "string \<Rightarrow> string \<Rightarrow> string \<Rightarrow> string \<Rightarrow> bool" where
  "overlapFree k pre lit post =
     (k \<noteq> [] \<and>
      list_all (\<lambda>i. prefix k (drop i (pre @ lit @ post)) \<longrightarrow> i + length k \<le> length pre)
        [0..<length pre + length lit])"

fun untouched :: "secrets \<Rightarrow> string \<Rightarrow> string \<Rightarrow> string \<Rightarrow> bool" where
  "untouched [] pre lit post = True"
| "untouched ((k, w) # es) pre lit post =
     (overlapFree k pre lit post
      \<and> untouched es (ReplaceAll pre k (replacement w)) lit (ReplaceAll post k (replacement w)))"

section \<open>ObfuscateFuncVars\<close>

text \<open>
  \<open>FindAllString\<close> for the expression \<open>\bob[a-zA-Z0-9_]+\<close>: a match starts at an
  \<open>o\<close> that no word character precedes, followed by \<open>b\<close> and at least one word
  character, and takes every word character that follows. The flag tells whether the
  byte before the text is a word character.
\<close>

definition isWord :: "char \<Rightarrow> bool" where
  "isWord c = (isAlnum c \<or> c = CHR ''_'')"

function FindAllString_ob :: "bool \<Rightarrow> string \<Rightarrow> string list" where
  "FindAllString_ob prev [] = []"
| "FindAllString_ob prev (c # cs) =
     (if \<not> prev \<and> c = CHR ''o'' \<and> (case cs of b # d # _ \<Rightarrow> b = CHR ''b'' \<and> isWord d | _ \<Rightarrow> False)
      then (c # takeWhile isWord cs) # FindAllString_ob True (dropWhile isWord cs)
      else FindAllString_ob (isWord c) cs)"
  by pat_completeness auto
termination
  by (relation "measure (\<lambda>(prev, s). length s)")
     (auto simp: less_Suc_eq_le length_dropWhile_le)

fun renameAll :: "mrand \<Rightarrow> nat \<Rightarrow> string list \<Rightarrow> string \<Rightarrow> string \<times> nat" where
  "renameAll rnd p [] input = (input, p)"
| "renameAll rnd p (w # ws) input =
     (let (name, p') = GenerateTyposquatName rnd p
      in renameAll rnd p' ws (ReplaceAll input w name))"

definition ObfuscateFuncVars_words :: "string \<Rightarrow> string list" where
  "ObfuscateFuncVars_words input = Unique (ReverseStringArray (FindAllString_ob False input))"

definition ObfuscateFuncVars :: "mrand \<Rightarrow> nat \<Rightarrow> string \<Rightarrow> string \<times> nat" where
  "ObfuscateFuncVars rnd p input = renameAll rnd p (ObfuscateFuncVars_words input) input"

section \<open>GenerateRandomAntiDebug\<close>

definition randomChecks :: "string list" where
  "randomChecks =
    [''obDependencyCheck()'', ''obEnvArgsDetect()'', ''obParentTracerDetect()'',
     ''obParentCmdLineDetect()'', ''obEnvDetect()'', ''obEnvParentDetect() '',
     ''obLdPreloadDetect()'', ''obParentDetect()'']"

text \<open>
  The inner loop builds two strings, the launches and a disjunction of the checks; only
  the launches are used afterwards.
\<close>

fun checksLoop :: "nat \<Rightarrow> string list \<Rightarrow> string \<times> string \<Rightarrow> string \<times> string" where
  "checksLoop j [] acc = acc"
| "checksLoop j (v # vs) (threadString, checkString) =
     checksLoop (Suc j) vs
       (threadString @ ''go '' @ v @ '';'',
        (if j \<noteq> length randomChecks - 1 then checkString @ v @ ''||'' else checkString @ v))"

text \<open>
  Modelled from the spec: \<open>ShuffleSlice\<close> is not among the sources. The spec says that the
  routines are launched in a random permutation of the fixed set. The random choice is a
  parameter: for the \<open>k\<close>-th call, \<open>pick k\<close> lists the indices of the slice in the order
  in which the result takes its elements.
\<close>

definition ShuffleSlice :: "(nat \<Rightarrow> nat list) \<Rightarrow> nat \<Rightarrow> string list \<Rightarrow> string list" where
  "ShuffleSlice pick k xs = rearrange (pick k) xs"

text \<open>
  The loop over the lines: a line that contains the marker becomes the launches, every
  other line stays. \<open>k\<close> counts the calls of \<open>ShuffleSlice\<close>.
\<close>

fun injectLines :: "(nat \<Rightarrow> nat list) \<Rightarrow> nat \<Rightarrow> string list \<Rightarrow> string list" where
  "injectLines pick k [] = []"
| "injectLines pick k (v # vs) =
     (if Contains v ''// OB_CHECK''
      then fst (checksLoop 0 (ShuffleSlice pick k randomChecks) ([], []))
             # injectLines pick (Suc k) vs
      else v # injectLines pick k vs)"

definition GenerateRandomAntiDebug :: "(nat \<Rightarrow> nat list) \<Rightarrow> string \<Rightarrow> string" where
  "GenerateRandomAntiDebug pick input = Join (injectLines pick 0 (Split input nl)) [nl]"

text \<open>The line of launches for the checks in a given order, one statement for each.\<close>

definition launches :: "string list \<Rightarrow> string" where
  "launches checks = concat (map (\<lambda>v. ''go '' @ v @ '';'') checks)"

section \<open>StripFile\<close>






section \<open>Facts about the string functions\<close>

lemma Split_no_sep: "sep \<notin> set l \<Longrightarrow> Split l sep = [l]"
  by (induction l) auto

lemma Split_append_sep: "sep \<notin> set l \<Longrightarrow> Split (l @ sep # rest) sep = l # Split rest sep"
  by (induction l) auto

lemma rearrange_mset: "mset (rearrange pick xs) = mset xs"
proof (cases "sort pick = [0..<length xs]")
  case True
  then have "mset pick = mset [0..<length xs]"
    by (metis mset_sort)
  then have "mset (map (\<lambda>i. xs ! i) pick) = mset (map (\<lambda>i. xs ! i) [0..<length xs])"
    by (metis mset_map)
  with True show ?thesis
    by (simp add: rearrange_def map_nth)
next
  case False
  then show ?thesis by (simp add: rearrange_def)
qed

lemma rearrange_set: "set (rearrange pick xs) = set xs"
  by (metis rearrange_mset set_mset_mset)

lemma Index_sublist: "0 \<le> Index s sub \<longleftrightarrow> sublist sub s"
proof (induction s)
  case Nil
  then show ?case by simp
next
  case (Cons c cs)
  then show ?case
    by (auto simp: sublist_Cons_right Let_def)
qed

lemma Contains_sublist: "Contains s sub \<longleftrightarrow> sublist sub s"
  by (simp add: Contains_def Index_sublist)

lemma Index_lower: "- 1 \<le> Index s sub"
  by (induction s) (auto simp: Let_def)

lemma Index_upper: "Index s sub + int (length sub) \<le> int (length s) \<or> Index s sub = - 1"
proof (induction s)
  case Nil
  then show ?case by simp
next
  case (Cons c cs)
  show ?case
  proof (cases "prefix sub (c # cs)")
    case True
    then show ?thesis using prefix_length_le[OF True] by simp
  next
    case False
    with Cons show ?thesis by (auto simp: Let_def)
  qed
qed

lemma sublist_set: "sublist sub s \<Longrightarrow> set sub \<subseteq> set s"
  by (auto simp: sublist_def)

lemma Contains_char: "Contains s [c] \<longleftrightarrow> c \<in> set s"
proof -
  have "sublist [c] s \<longleftrightarrow> c \<in> set s"
    by (auto simp: sublist_def in_set_conv_decomp)
  then show ?thesis by (simp add: Contains_sublist)
qed

lemma ReplaceAll_absent: "\<not> sublist old s \<Longrightarrow> ReplaceAll s old new = s"
proof (induction s old new rule: ReplaceAll.induct)
  case (1 old new)
  then show ?case by auto
next
  case (2 c cs old new)
  from "2.prems" have ne: "old \<noteq> []" by auto
  from "2.prems" have np: "\<not> prefix old (c # cs)" and ns: "\<not> sublist old cs"
    by (simp_all add: sublist_Cons_right)
  with "2.IH"(3) ne show ?case by simp
qed

text \<open>What is left of a prefix or an occurrence that shares no byte with the replacement.\<close>

lemma prefix_ReplaceAll:
  "old \<noteq> [] \<Longrightarrow> new \<noteq> [] \<Longrightarrow> set p \<inter> set new = {} \<Longrightarrow>
   prefix p (ReplaceAll s old new) \<Longrightarrow> prefix p s"
proof (induction s old new arbitrary: p rule: ReplaceAll.induct)
  case (1 old new)
  then show ?case by simp
next
  case (2 c cs old new)
  show ?case
  proof (cases "prefix old (c # cs)")
    case True
    with "2.prems"(1,4) have pp: "prefix p (new @ ReplaceAll (drop (length old) (c # cs)) old new)"
      by simp
    show ?thesis
    proof (cases p)
      case Nil
      then show ?thesis by simp
    next
      case (Cons a p')
      from "2.prems"(2) obtain n ns where n: "new = n # ns" by (cases new) auto
      with pp Cons have "a = n" by simp
      with Cons n "2.prems"(3) show ?thesis by auto
    qed
  next
    case False
    with "2.prems"(1,4) have pp: "prefix p (c # ReplaceAll cs old new)"
      by simp
    show ?thesis
    proof (cases p)
      case Nil
      then show ?thesis by simp
    next
      case (Cons a p')
      with pp have a: "a = c" and p': "prefix p' (ReplaceAll cs old new)" by simp_all
      from "2.prems"(3) Cons have "set p' \<inter> set new = {}" by auto
      from "2.IH"(3)[OF "2.prems"(1) False "2.prems"(1,2) this p'] a Cons show ?thesis by simp
    qed
  qed
qed

lemma sublist_skip_prefix:
  "p \<noteq> [] \<Longrightarrow> hd p \<notin> set new \<Longrightarrow> sublist p (new @ r) \<Longrightarrow> sublist p r"
proof (induction new)
  case Nil
  then show ?case by simp
next
  case (Cons n ns)
  from Cons.prems(1) obtain a p' where p: "p = a # p'" by (cases p) auto
  with Cons.prems(2) have "a \<noteq> n" by auto
  with p have "\<not> prefix p (n # ns @ r)" by simp
  with Cons.prems(3) have "sublist p (ns @ r)" by (simp add: sublist_Cons_right)
  with Cons show ?case by simp
qed

lemma sublist_ReplaceAll:
  "old \<noteq> [] \<Longrightarrow> new \<noteq> [] \<Longrightarrow> p \<noteq> [] \<Longrightarrow> set p \<inter> set new = {} \<Longrightarrow>
   sublist p (ReplaceAll s old new) \<Longrightarrow> sublist p s"
proof (induction s old new rule: ReplaceAll.induct)
  case (1 old new)
  then show ?case by simp
next
  case (2 c cs old new)
  from "2.prems"(3,4) have hd: "hd p \<notin> set new" by (cases p) auto
  show ?case
  proof (cases "prefix old (c # cs)")
    case True
    with "2.prems"(1,5) have "sublist p (new @ ReplaceAll (drop (length old) (c # cs)) old new)"
      by simp
    from sublist_skip_prefix[OF "2.prems"(3) hd this]
    have "sublist p (ReplaceAll (drop (length old) (c # cs)) old new)" .
    from "2.IH"(2)[OF "2.prems"(1) True "2.prems"(1,2,3,4) this]
    have "sublist p (drop (length old) (c # cs))" .
    then show ?thesis
      by (meson sublist_order.order_trans suffix_drop suffix_imp_sublist)
  next
    case False
    with "2.prems"(1) have eq: "ReplaceAll (c # cs) old new = c # ReplaceAll cs old new"
      by simp
    with "2.prems"(5) have "prefix p (ReplaceAll (c # cs) old new) \<or> sublist p (ReplaceAll cs old new)"
      by (simp add: sublist_Cons_right)
    then show ?thesis
    proof
      assume "prefix p (ReplaceAll (c # cs) old new)"
      from prefix_ReplaceAll[OF "2.prems"(1,2,4) this] show ?thesis
        by (rule prefix_imp_sublist)
    next
      assume "sublist p (ReplaceAll cs old new)"
      from "2.IH"(3)[OF "2.prems"(1) False "2.prems"(1,2,3,4) this] show ?thesis
        by (simp add: sublist_Cons_right)
    qed
  qed
qed

lemma ReplaceAll_removes:
  "old \<noteq> [] \<Longrightarrow> new \<noteq> [] \<Longrightarrow> set old \<inter> set new = {} \<Longrightarrow> \<not> sublist old (ReplaceAll s old new)"
proof (induction s old new rule: ReplaceAll.induct)
  case (1 old new)
  then show ?case by simp
next
  case (2 c cs old new)
  from "2.prems"(1,3) have hd: "hd old \<notin> set new" by (cases old) auto
  show ?case
  proof (cases "prefix old (c # cs)")
    case True
    show ?thesis
    proof
      assume "sublist old (ReplaceAll (c # cs) old new)"
      with "2.prems"(1) True have "sublist old (new @ ReplaceAll (drop (length old) (c # cs)) old new)"
        by simp
      from sublist_skip_prefix[OF "2.prems"(1) hd this] "2.IH"(2)[OF "2.prems"(1) True "2.prems"]
      show False by simp
    qed
  next
    case False
    with "2.prems"(1) have eq: "ReplaceAll (c # cs) old new = c # ReplaceAll cs old new"
      by simp
    show ?thesis
    proof
      assume "sublist old (ReplaceAll (c # cs) old new)"
      then have "prefix old (ReplaceAll (c # cs) old new) \<or> sublist old (ReplaceAll cs old new)"
        unfolding eq by (simp add: sublist_Cons_right)
      then show False
      proof
        assume "prefix old (ReplaceAll (c # cs) old new)"
        from prefix_ReplaceAll[OF "2.prems" this] False show False by simp
      next
        assume "sublist old (ReplaceAll cs old new)"
        with "2.IH"(3)[OF "2.prems"(1) False "2.prems"] show False by simp
      qed
    qed
  qed
qed


text \<open>
  The same for a token in quotes: a delimiter, a content without it, the delimiter again.
  The replacement holds no delimiter and does not occur in the content.
\<close>

lemma prefix_ReplaceAll_tail:
  "old \<noteq> [] \<Longrightarrow> q \<notin> set new \<Longrightarrow> q \<notin> set m \<Longrightarrow> \<not> sublist new m \<Longrightarrow>
   prefix (m @ [q]) (ReplaceAll s old new) \<Longrightarrow> prefix (m @ [q]) s"
proof (induction s old new arbitrary: m rule: ReplaceAll.induct)
  case (1 old new)
  then show ?case by simp
next
  case (2 c cs old new)
  show ?case
  proof (cases "prefix old (c # cs)")
    case True
    with "2.prems"(1,5)
    have pp: "prefix (m @ [q]) (new @ ReplaceAll (drop (length old) (c # cs)) old new)"
      by simp
    have "prefix new (new @ ReplaceAll (drop (length old) (c # cs)) old new)"
      by simp
    from prefix_same_cases[OF pp this] have "prefix (m @ [q]) new \<or> prefix new (m @ [q])" .
    then have False
    proof
      assume "prefix (m @ [q]) new"
      then have "set (m @ [q]) \<subseteq> set new" by (rule set_mono_prefix)
      with "2.prems"(2) show False by simp
    next
      assume "prefix new (m @ [q])"
      then have "new = m @ [q] \<or> prefix new m" by simp
      then show False
      proof
        assume "new = m @ [q]" with "2.prems"(2) show False by simp
      next
        assume "prefix new m"
        then have "sublist new m" by (rule prefix_imp_sublist)
        with "2.prems"(4) show False by simp
      qed
    qed
    then show ?thesis ..
  next
    case False
    with "2.prems"(1,5) have pp: "prefix (m @ [q]) (c # ReplaceAll cs old new)"
      by simp
    show ?thesis
    proof (cases m)
      case Nil
      with pp show ?thesis by simp
    next
      case (Cons a m')
      with pp have a: "a = c" and p': "prefix (m' @ [q]) (ReplaceAll cs old new)" by simp_all
      from "2.prems"(3) Cons have q: "q \<notin> set m'" by simp
      from "2.prems"(4) Cons have n: "\<not> sublist new m'" by (auto simp: sublist_Cons_right)
      from "2.IH"(3)[OF "2.prems"(1) False "2.prems"(1,2) q n p'] a Cons show ?thesis by simp
    qed
  qed
qed

lemma prefix_ReplaceAll_token:
  assumes "old \<noteq> []" and "q \<notin> set new" and "q \<notin> set m" and "\<not> sublist new m"
    and "prefix (q # m @ [q]) (ReplaceAll s old new)"
  shows "prefix (q # m @ [q]) s"
proof (cases s)
  case Nil
  with assms(1,5) show ?thesis by simp
next
  case (Cons c cs)
  from assms(4) have ne: "new \<noteq> []" by auto
  show ?thesis
  proof (cases "prefix old (c # cs)")
    case True
    with assms(1,5) Cons
    have "prefix (q # m @ [q]) (new @ ReplaceAll (drop (length old) (c # cs)) old new)"
      by simp
    with ne have "q = hd new" by (cases new) auto
    with ne assms(2) show ?thesis by (cases new) auto
  next
    case False
    with assms(1) Cons have eq: "ReplaceAll s old new = c # ReplaceAll cs old new"
      by simp
    from assms(5) have "q = c \<and> prefix (m @ [q]) (ReplaceAll cs old new)"
      unfolding eq Cons_prefix_Cons .
    then have c: "c = q" and t: "prefix (m @ [q]) (ReplaceAll cs old new)" by blast+
    from prefix_ReplaceAll_tail[OF assms(1,2,3,4) t] have "prefix (m @ [q]) cs" .
    then show ?thesis unfolding Cons c Cons_prefix_Cons by blast
  qed
qed

lemma sublist_ReplaceAll_token:
  "old \<noteq> [] \<Longrightarrow> q \<notin> set new \<Longrightarrow> q \<notin> set m \<Longrightarrow> \<not> sublist new m \<Longrightarrow>
   sublist (q # m @ [q]) (ReplaceAll s old new) \<Longrightarrow> sublist (q # m @ [q]) s"
proof (induction s old new rule: ReplaceAll.induct)
  case (1 old new)
  then show ?case by simp
next
  case (2 c cs old new)
  have hd: "hd (q # m @ [q]) \<notin> set new" using "2.prems"(2) by simp
  show ?case
  proof (cases "prefix old (c # cs)")
    case True
    with "2.prems"(1,5)
    have "sublist (q # m @ [q]) (new @ ReplaceAll (drop (length old) (c # cs)) old new)"
      by simp
    from sublist_skip_prefix[OF _ hd this]
    have "sublist (q # m @ [q]) (ReplaceAll (drop (length old) (c # cs)) old new)" by simp
    from "2.IH"(2)[OF "2.prems"(1) True "2.prems"(1,2,3,4) this]
    have "sublist (q # m @ [q]) (drop (length old) (c # cs))" .
    then show ?thesis
      by (meson sublist_order.order_trans suffix_drop suffix_imp_sublist)
  next
    case False
    with "2.prems"(1) have eq: "ReplaceAll (c # cs) old new = c # ReplaceAll cs old new"
      by simp
    with "2.prems"(5)
    have "prefix (q # m @ [q]) (ReplaceAll (c # cs) old new) \<or> sublist (q # m @ [q]) (ReplaceAll cs old new)"
      by (simp add: sublist_Cons_right)
    then show ?thesis
    proof
      assume "prefix (q # m @ [q]) (ReplaceAll (c # cs) old new)"
      from prefix_ReplaceAll_token[OF "2.prems"(1,2,3,4) this] show ?thesis
        by (rule prefix_imp_sublist)
    next
      assume "sublist (q # m @ [q]) (ReplaceAll cs old new)"
      from "2.IH"(3)[OF "2.prems"(1) False "2.prems"(1,2,3,4) this] show ?thesis
        by (simp add: sublist_Cons_right)
    qed
  qed
qed

lemma ReplaceAll_removes_token:
  "old = q # m @ [q] \<Longrightarrow> q \<notin> set new \<Longrightarrow> q \<notin> set m \<Longrightarrow> \<not> sublist new m \<Longrightarrow>
   \<not> sublist old (ReplaceAll s old new)"
proof (induction s old new rule: ReplaceAll.induct)
  case (1 old new)
  then show ?case by simp
next
  case (2 c cs old new)
  from "2.prems"(1) have ne: "old \<noteq> []" by simp
  from "2.prems"(1,2) have hd: "hd old \<notin> set new" by simp
  show ?case
  proof (cases "prefix old (c # cs)")
    case True
    show ?thesis
    proof
      assume "sublist old (ReplaceAll (c # cs) old new)"
      with ne True have "sublist old (new @ ReplaceAll (drop (length old) (c # cs)) old new)"
        by simp
      from sublist_skip_prefix[OF ne hd this] "2.IH"(2)[OF ne True "2.prems"]
      show False by simp
    qed
  next
    case False
    with ne have eq: "ReplaceAll (c # cs) old new = c # ReplaceAll cs old new"
      by simp
    show ?thesis
    proof
      assume "sublist old (ReplaceAll (c # cs) old new)"
      then have "prefix old (ReplaceAll (c # cs) old new) \<or> sublist old (ReplaceAll cs old new)"
        unfolding eq by (simp add: sublist_Cons_right)
      then show False
      proof
        assume "prefix old (ReplaceAll (c # cs) old new)"
        then have "prefix (q # m @ [q]) (ReplaceAll (c # cs) old new)"
          using "2.prems"(1) by simp
        from prefix_ReplaceAll_token[OF ne "2.prems"(2,3,4) this] False "2.prems"(1)
        show False by auto
      next
        assume "sublist old (ReplaceAll cs old new)"
        with "2.IH"(3)[OF ne False "2.prems"] show False by simp
      qed
    qed
  qed
qed

lemma ReplaceAll_occurrence:
  "old \<noteq> [] \<Longrightarrow> hd old \<notin> set pre \<Longrightarrow>
   ReplaceAll (pre @ old @ rest) old new = pre @ new @ ReplaceAll rest old new"
proof (induction pre)
  case Nil
  then obtain a os where "old = a # os" by (cases old) auto
  then show ?case by simp
next
  case (Cons x pre)
  from Cons.prems obtain a os where o: "old = a # os" by (cases old) auto
  with Cons.prems have "x \<noteq> a" by auto
  with o have "\<not> prefix old (x # pre @ old @ rest)" by simp
  with Cons show ?case by simp
qed

lemma ReplaceAll_no_start: "old \<noteq> [] \<Longrightarrow> hd old \<notin> set s \<Longrightarrow> ReplaceAll s old new = s"
proof (rule ReplaceAll_absent)
  assume "old \<noteq> []" and h: "hd old \<notin> set s"
  show "\<not> sublist old s"
  proof
    assume "sublist old s"
    then have "set old \<subseteq> set s" by (rule sublist_set)
    with \<open>old \<noteq> []\<close> h show False by (cases old) auto
  qed
qed

text \<open>
  A byte that does not occur in \<open>old\<close> cuts the text: no occurrence of \<open>old\<close> reaches across
  it, so the two sides are rewritten each on its own.
\<close>

lemma prefix_before_byte:
  assumes "prefix w (u @ c # b)" and "c \<notin> set w"
  shows "prefix w u"
proof -
  from assms(1) obtain z where "u @ c # b = w @ z"
    by (auto elim: prefixE)
  then obtain us where "u = w @ us \<and> us @ c # b = z \<or> u @ us = w \<and> c # b = us @ z"
    unfolding append_eq_append_conv2 ..
  then show ?thesis
  proof
    assume "u = w @ us \<and> us @ c # b = z"
    then show ?thesis by simp
  next
    assume a: "u @ us = w \<and> c # b = us @ z"
    show ?thesis
    proof (cases us)
      case Nil
      with a show ?thesis by simp
    next
      case (Cons x xs)
      with a have "c \<in> set w" by auto
      with assms(2) show ?thesis by simp
    qed
  qed
qed

lemma ReplaceAll_split:
  "w \<noteq> [] \<Longrightarrow> c \<notin> set w \<Longrightarrow>
   ReplaceAll (a @ c # b) w n = ReplaceAll a w n @ c # ReplaceAll b w n"
proof (induction a w n rule: ReplaceAll.induct)
  case (1 old new)
  then have "\<not> prefix old (c # b)"
    by (cases old) auto
  with 1 show ?case by simp
next
  case (2 x xs old new)
  show ?case
  proof (cases "prefix old (x # xs)")
    case True
    then have len: "length old \<le> length (x # xs)" by (rule prefix_length_le)
    from True have "prefix old ((x # xs) @ c # b)"
      by (rule prefix_prefix)
    then have "ReplaceAll ((x # xs) @ c # b) old new
                 = new @ ReplaceAll (drop (length old) ((x # xs) @ c # b)) old new"
      using "2.prems"(1) by simp
    also have "drop (length old) ((x # xs) @ c # b) = drop (length old) (x # xs) @ c # b"
      using len unfolding drop_append by simp
    also have "ReplaceAll (drop (length old) (x # xs) @ c # b) old new
                 = ReplaceAll (drop (length old) (x # xs)) old new @ c # ReplaceAll b old new"
      by (rule "2.IH"(2)[OF "2.prems"(1) True "2.prems"])
    finally show ?thesis
      using True "2.prems"(1) by simp
  next
    case False
    have "\<not> prefix old ((x # xs) @ c # b)"
      using prefix_before_byte[OF _ "2.prems"(2)] False by blast
    then have "ReplaceAll ((x # xs) @ c # b) old new = x # ReplaceAll (xs @ c # b) old new"
      using "2.prems"(1) by simp
    also have "ReplaceAll (xs @ c # b) old new = ReplaceAll xs old new @ c # ReplaceAll b old new"
      by (rule "2.IH"(3)[OF "2.prems"(1) False "2.prems"])
    finally show ?thesis
      using False "2.prems"(1) by simp
  qed
qed

lemma ReplaceAll_self: "w \<noteq> [] \<Longrightarrow> ReplaceAll w w n = n"
  using ReplaceAll_occurrence[of w "[]" "[]" n] by simp

lemma replaceKeys_Cons:
  "replaceKeys ((k, w) # es) body = replaceKeys es (ReplaceAll body k (replacement w))"
  by (simp add: replaceKeys_def)

section \<open>The replacement of a signature fragment\<close>

lemma length_EncodeToString1: "length (EncodeToString [b]) = 2"
  by (simp add: EncodeToString_def)

lemma ReplaceAll_same_length:
  "old \<noteq> [] \<Longrightarrow> length old = length new \<Longrightarrow> length (ReplaceAll s old new) = length s"
proof (induction s old new rule: ReplaceAll.induct)
  case (1 old new)
  then show ?case by simp
next
  case (2 c cs old new)
  show ?case
  proof (cases "prefix old (c # cs)")
    case True
    then have "length old \<le> length (c # cs)" by (rule prefix_length_le)
    with 2 True show ?thesis by simp
  next
    case False
    with 2 show ?thesis by simp
  qed
qed

lemma randomUnits_0: "randomUnits rnd p 0 = []"
  by (simp add: randomUnits_def)

lemma randomUnits_Suc:
  "randomUnits rnd p (Suc n) =
     [bslash, CHR ''x''] @ EncodeToString [the (rnd p)] @ randomUnits rnd (Suc p) n"
proof -
  have "[p..<p + Suc n] = p # [Suc p..<Suc p + n]"
    by (simp add: upt_rec)
  then show ?thesis
    unfolding randomUnits_def by simp
qed

lemma length_randomUnits: "length (randomUnits rnd p n) = 4 * n"
  by (induction n arbitrary: p) (simp_all add: randomUnits_0 randomUnits_Suc length_EncodeToString1)

lemma unescape_randomUnits: "length (unescape (randomUnits rnd p n)) = n"
  by (induction n arbitrary: p) (simp_all add: randomUnits_0 randomUnits_Suc EncodeToString_def)

lemma sedLoop_result:
  "length s + 4 * n = length v \<Longrightarrow> \<forall>i < n. rnd (p + i) \<noteq> None \<Longrightarrow>
   sedLoop rnd p v s = Some (s @ randomUnits rnd p n, p + n)"
proof (induction n arbitrary: p s)
  case 0
  then show ?case
    by (subst sedLoop.simps) (simp add: randomUnits_0)
next
  case (Suc n)
  from Suc.prems(2) have "rnd (p + 0) \<noteq> None" by blast
  then obtain b where b: "rnd p = Some b" by auto
  let ?s = "s @ [bslash, CHR ''x''] @ EncodeToString [b]"
  have len: "length ?s + 4 * n = length v"
    using Suc.prems(1) by (simp add: length_EncodeToString1)
  have later: "\<forall>i < n. rnd (Suc p + i) \<noteq> None"
  proof (intro allI impI)
    fix i assume "i < n"
    then have "Suc i < Suc n" by simp
    with Suc.prems(2) have "rnd (p + Suc i) \<noteq> None" by blast
    then show "rnd (Suc p + i) \<noteq> None" by simp
  qed
  from Suc.IH[OF len later]
  have ih: "sedLoop rnd (Suc p) v ?s = Some (?s @ randomUnits rnd (Suc p) n, Suc p + n)" .
  have lt: "length s < length v"
    using Suc.prems(1) by simp
  have step: "sedLoop rnd p v s = sedLoop rnd (Suc p) v ?s"
    using lt b by (subst sedLoop.simps) simp
  show ?case
    unfolding step ih using b by (simp add: randomUnits_Suc)
qed

lemma header_shape:
  "v \<in> set header \<Longrightarrow> length v mod 4 = 0 \<and> length (unescape v) = length v div 4 \<and> unescape v \<noteq> []"
  unfolding header_def by (auto simp: raw_def bslash_def)

lemma sedLoop_Some:
  "length s + 4 * n = length v \<Longrightarrow> sedLoop rnd p v s = Some (r, p') \<Longrightarrow>
   r = s @ randomUnits rnd p n \<and> p' = p + n"
proof (induction n arbitrary: p s)
  case 0
  from "0.prems"(2) have "Some (s, p) = Some (r, p')"
    using "0.prems"(1) by (subst (asm) sedLoop.simps) simp
  then show ?case
    by (simp add: randomUnits_0)
next
  case (Suc n)
  have lt: "length s < length v"
    using Suc.prems(1) by simp
  show ?case
  proof (cases "rnd p")
    case None
    with lt Suc.prems(2) show ?thesis
      by (subst (asm) sedLoop.simps) simp
  next
    case (Some b)
    let ?s = "s @ [bslash, CHR ''x''] @ EncodeToString [b]"
    have len: "length ?s + 4 * n = length v"
      using Suc.prems(1) by (simp add: length_EncodeToString1)
    from lt Some Suc.prems(2) have "sedLoop rnd (Suc p) v ?s = Some (r, p')"
      by (subst (asm) sedLoop.simps) simp
    from Suc.IH[OF len this] Some show ?thesis
      by (simp add: randomUnits_Suc)
  qed
qed

lemma whole_units: "length v mod 4 = 0 \<Longrightarrow> length ([] :: string) + 4 * (length v div 4) = length v"
  by simp presburger

lemma units_Cons: "units (v # vs) = length v div 4 + units vs"
  by (simp add: units_def)

text \<open>
  The calls of the outer loop, for any list of fragments that are whole numbers of units:
  one call for each fragment in turn, until a read or a call fails, and the replacement in
  a call is made of the bytes read for it.
\<close>

lemma StripUPXHeaders_loop_calls:
  assumes "\<forall>v \<in> set vs. length v mod 4 = 0"
    and "StripUPXHeaders_loop rnd exec infile p k vs binary = (result, calls, binary')"
  shows "length calls \<le> length vs \<and> (result \<longrightarrow> length calls = length vs)
         \<and> (\<forall>i < length calls.
               calls ! i = sedArgs (vs ! i)
                             (randomUnits rnd (p + units (take i vs)) (length (vs ! i) div 4)) infile)"
  using assms
proof (induction vs arbitrary: p k binary result calls binary')
  case Nil
  then show ?case by simp
next
  case (Cons v vs)
  from Cons.prems(1) have m: "length v mod 4 = 0" and ms: "\<forall>v \<in> set vs. length v mod 4 = 0"
    by simp_all
  show ?case
  proof (cases "sedLoop rnd p v []")
    case None
    with Cons.prems(2) show ?thesis by simp
  next
    case (Some a)
    obtain s p' where a: "a = (s, p')" by (cases a)
    from sedLoop_Some[OF whole_units[OF m] Some[unfolded a]]
    have s: "s = randomUnits rnd p (length v div 4)" and p': "p' = p + length v div 4"
      by simp_all
    obtain r0 b0 where e: "exec k ''sed'' (sedArgs v s infile) binary = (r0, b0)"
      by (cases "exec k ''sed'' (sedArgs v s infile) binary")
    show ?thesis
    proof (cases r0)
      case False
      with Cons.prems(2) Some a e have "result = False" and "calls = [sedArgs v s infile]"
        by simp_all
      then show ?thesis
        using s by (simp add: units_def)
    next
      case True
      obtain r cs b where rec: "StripUPXHeaders_loop rnd exec infile p' (Suc k) vs b0 = (r, cs, b)"
        by (cases "StripUPXHeaders_loop rnd exec infile p' (Suc k) vs b0")
      from Cons.prems(2) Some a e True rec have res: "result = r" and calls: "calls = sedArgs v s infile # cs"
        by simp_all
      from Cons.IH[OF ms rec]
      have ih1: "length cs \<le> length vs" and ih2: "r \<longrightarrow> length cs = length vs"
        and ih3: "\<forall>i < length cs.
               cs ! i = sedArgs (vs ! i)
                          (randomUnits rnd (p' + units (take i vs)) (length (vs ! i) div 4)) infile"
        by simp_all
      have "calls ! i = sedArgs ((v # vs) ! i)
              (randomUnits rnd (p + units (take i (v # vs))) (length ((v # vs) ! i) div 4)) infile"
        if "i < length calls" for i
      proof (cases i)
        case 0
        then show ?thesis
          using calls s by (simp add: units_def)
      next
        case (Suc j)
        with that calls have "j < length cs" by simp
        with ih3 have "cs ! j = sedArgs (vs ! j)
                          (randomUnits rnd (p' + units (take j vs)) (length (vs ! j) div 4)) infile"
          by blast
        then show ?thesis
          using Suc calls p' by (simp add: units_Cons add.assoc)
      qed
      with ih1 ih2 res calls show ?thesis by simp
    qed
  qed
qed

text \<open>When no read and no call fails, the loop returns true.\<close>

lemma StripUPXHeaders_loop_true:
  assumes "\<forall>v \<in> set vs. length v mod 4 = 0"
    and "\<forall>i < units vs. rnd (p + i) \<noteq> None"
    and "\<forall>k args b. fst (exec k ''sed'' args b)"
  shows "fst (StripUPXHeaders_loop rnd exec infile p k vs binary)"
  using assms(1,2)
proof (induction vs arbitrary: p k binary)
  case Nil
  show ?case by simp
next
  case (Cons v vs)
  from Cons.prems(1) have m: "length v mod 4 = 0" and ms: "\<forall>v \<in> set vs. length v mod 4 = 0"
    by simp_all
  let ?n = "length v div 4"
  have here: "\<forall>i < ?n. rnd (p + i) \<noteq> None"
    using Cons.prems(2) by (simp add: units_Cons)
  have later: "\<forall>i < units vs. rnd (p + ?n + i) \<noteq> None"
  proof (intro allI impI)
    fix i assume "i < units vs"
    then have "?n + i < units (v # vs)" by (simp add: units_Cons)
    with Cons.prems(2) have "rnd (p + (?n + i)) \<noteq> None" by blast
    then show "rnd (p + ?n + i) \<noteq> None" by (simp add: add.assoc)
  qed
  from sedLoop_result[OF whole_units[OF m] here]
  have run: "sedLoop rnd p v [] = Some (randomUnits rnd p ?n, p + ?n)"
    by simp
  let ?args = "sedArgs v (randomUnits rnd p ?n) infile"
  obtain r0 b0 where e: "exec k ''sed'' ?args binary = (r0, b0)"
    by (cases "exec k ''sed'' ?args binary")
  from assms(3) have "fst (exec k ''sed'' ?args binary)" by blast
  with e have r0: "r0" by simp
  obtain r cs b where rec: "StripUPXHeaders_loop rnd exec infile (p + ?n) (Suc k) vs b0 = (r, cs, b)"
    by (cases "StripUPXHeaders_loop rnd exec infile (p + ?n) (Suc k) vs b0")
  from Cons.IH[OF ms later, of "Suc k" b0] rec have "r" by simp
  then show ?case
    using run e r0 rec by simp
qed

text \<open>
  With the stream editor of the spec, a call for a fragment of the signature puts as many
  bytes as it takes away.
\<close>

lemma slash_not_in_fragment: "v \<in> set header \<Longrightarrow> CHR ''/'' \<notin> set v"
  unfolding header_def by (auto simp: raw_def bslash_def)

lemma hexdigit_chars: "hexdigit n \<in> set ''0123456789abcdef''"
  unfolding hexdigit_def by (rule nth_mem) simp


lemma slash_not_in_randomUnits: "CHR ''/'' \<notin> set (randomUnits rnd p n)"
proof (induction n arbitrary: p)
  case 0
  show ?case by (simp add: randomUnits_0)
next
  case (Suc n)
  have "set (EncodeToString [the (rnd p)]) \<subseteq> set ''0123456789abcdef''"
    using hexdigit_chars by (simp add: EncodeToString_def)
  moreover have "CHR ''/'' \<notin> set ''0123456789abcdef''"
    by simp
  ultimately have "CHR ''/'' \<notin> set (EncodeToString [the (rnd p)])"
    by blast
  with Suc show ?case
    by (simp add: randomUnits_Suc bslash_def)
qed

lemma sedScript_sedArgs:
  assumes "CHR ''/'' \<notin> set v" and "CHR ''/'' \<notin> set r"
  shows "sedScript (''s/'' @ v @ ''/'' @ r @ ''/g'') = Some (v, r)"
proof -
  have "Split (''s/'' @ v @ ''/'' @ r @ ''/g'') (CHR ''/'')
          = ''s'' # Split (v @ CHR ''/'' # r @ CHR ''/'' # ''g'') (CHR ''/'')"
    by simp
  also have "\<dots> = ''s'' # v # Split (r @ CHR ''/'' # ''g'') (CHR ''/'')"
    by (simp only: Split_append_sep[OF assms(1)])
  also have "\<dots> = ''s'' # v # r # Split ''g'' (CHR ''/'')"
    by (simp only: Split_append_sep[OF assms(2)])
  also have "\<dots> = [''s'', v, r, ''g'']"
    by simp
  finally show ?thesis
    by (simp add: sedScript_def)
qed

lemma ExecCommand_sed_length:
  assumes "v \<in> set header"
    and "ExecCommand_sed ok fail k ''sed'' (sedArgs v (randomUnits rnd p (length v div 4)) infile) binary
           = (True, binary')"
  shows "length binary' = length binary"
proof -
  let ?r = "randomUnits rnd p (length v div 4)"
  from header_shape[OF assms(1)]
  have u: "length (unescape v) = length v div 4" and ne: "unescape v \<noteq> []"
    by simp_all
  have sc: "sedScript (''s/'' @ v @ ''/'' @ ?r @ ''/g'') = Some (v, ?r)"
    by (rule sedScript_sedArgs[OF slash_not_in_fragment[OF assms(1)] slash_not_in_randomUnits])
  have len: "length (sed_subst binary v ?r) = length binary"
    unfolding sed_subst_def by (rule ReplaceAll_same_length[OF ne]) (simp add: u unescape_randomUnits)
  have "ExecCommand_sed ok fail k ''sed'' (sedArgs v ?r infile) binary
          = (if ok k then (True, sed_subst binary v ?r) else (False, fail k binary))"
    unfolding ExecCommand_sed_def sedArgs_def by (simp only: list.case sc option.case prod.case)
  with assms(2) have "binary' = sed_subst binary v ?r"
    by (simp split: if_splits)
  with len show ?thesis by simp
qed

lemma StripUPXHeaders_loop_length:
  assumes "set vs \<subseteq> set header"
    and "StripUPXHeaders_loop rnd (ExecCommand_sed ok fail) infile p k vs binary = (True, calls, binary')"
  shows "length binary' = length binary"
  using assms
proof (induction vs arbitrary: p k binary calls binary')
  case Nil
  then show ?case by simp
next
  case (Cons v vs)
  from Cons.prems(1) have v: "v \<in> set header" and vs: "set vs \<subseteq> set header"
    by simp_all
  from header_shape[OF v] have m: "length v mod 4 = 0" by simp
  show ?case
  proof (cases "sedLoop rnd p v []")
    case None
    with Cons.prems(2) show ?thesis by simp
  next
    case (Some a)
    obtain s p' where a: "a = (s, p')" by (cases a)
    from sedLoop_Some[OF whole_units[OF m] Some[unfolded a]]
    have s: "s = randomUnits rnd p (length v div 4)"
      by simp
    obtain r0 b0 where e: "ExecCommand_sed ok fail k ''sed'' (sedArgs v s infile) binary = (r0, b0)"
      by (cases "ExecCommand_sed ok fail k ''sed'' (sedArgs v s infile) binary")
    obtain r cs b where rec: "StripUPXHeaders_loop rnd (ExecCommand_sed ok fail) infile p' (Suc k) vs b0 = (r, cs, b)"
      by (cases "StripUPXHeaders_loop rnd (ExecCommand_sed ok fail) infile p' (Suc k) vs b0")
    from Cons.prems(2) Some a e have r0: "r0"
      by (cases r0) simp_all
    with Cons.prems(2) Some a e rec have "r = True" and "b = binary'"
      by simp_all
    with rec have "length binary' = length b0"
      using Cons.IH[OF vs] by blast
    moreover have "length b0 = length binary"
    proof -
      from e r0 have "ExecCommand_sed ok fail k ''sed''
            (sedArgs v (randomUnits rnd p (length v div 4)) infile) binary = (True, b0)"
        unfolding s by simp
      then show ?thesis by (rule ExecCommand_sed_length[OF v])
    qed
    ultimately show ?thesis by simp
  qed
qed

text \<open>
  Claim C2. Whatever the random source and the external tool do, the calls that
  \<open>StripUPXHeaders\<close> makes are one \<open>sed\<close> call for each fragment of the signature in
  turn, up to the first failure, and all sixteen when it returns true. The replacement in
  the call for a fragment is made of the bytes read for it, one read for each unit; it has
  as many \<open>\xNN\<close> units as the fragment and the length of the fragment, as text and as
  the bytes that the units stand for. When no read and no call fails, the function
  returns true. With the stream editor of the spec, a run that returns true leaves the
  length of the binary as it was.
\<close>

theorem StripUPXHeaders_replacement_length:
  "(\<forall>result calls binary'.
      StripUPXHeaders rnd exec infile binary = (result, calls, binary') \<longrightarrow>
        length calls \<le> length header
        \<and> (result \<longrightarrow> length calls = length header)
        \<and> (\<forall>i < length calls. \<exists>sedString.
              calls ! i = sedArgs (header ! i) sedString infile
              \<and> sedString = randomUnits rnd (units (take i header)) (units [header ! i])
              \<and> length sedString = length (header ! i)
              \<and> length (unescape sedString) = length (unescape (header ! i))))
   \<and> ((\<forall>i < units header. rnd i \<noteq> None) \<and> (\<forall>k args b. fst (exec k ''sed'' args b))
        \<longrightarrow> fst (StripUPXHeaders rnd exec infile binary))
   \<and> (\<forall>calls binary'.
        StripUPXHeaders rnd (ExecCommand_sed ok fail) infile binary = (True, calls, binary')
          \<longrightarrow> length binary' = length binary)"
proof (intro conjI allI impI)
  have ms: "\<forall>v \<in> set header. length v mod 4 = 0"
    using header_shape by blast
  {
    fix result calls binary'
    assume run: "StripUPXHeaders rnd exec infile binary = (result, calls, binary')"
    from StripUPXHeaders_loop_calls[OF ms run[unfolded StripUPXHeaders_def]]
    have c1: "length calls \<le> length header" and c2: "result \<longrightarrow> length calls = length header"
      and c3: "\<forall>i < length calls.
               calls ! i = sedArgs (header ! i)
                             (randomUnits rnd (0 + units (take i header)) (length (header ! i) div 4)) infile"
      by simp_all
    show "length calls \<le> length header" by (rule c1)
    {
      assume result
      with c2 show "length calls = length header" by simp
    }
    fix i
    assume i: "i < length calls"
    let ?v = "header ! i"
    let ?r = "randomUnits rnd (units (take i header)) (units [?v])"
    from i c1 have "?v \<in> set header" by simp
    from header_shape[OF this]
    have m: "length ?v mod 4 = 0" and u: "length (unescape ?v) = length ?v div 4"
      by simp_all
    from m have l4: "4 * (length ?v div 4) = length ?v"
      by presburger
    from c3 i have "calls ! i = sedArgs ?v ?r infile"
      by (simp add: units_def)
    moreover have "length ?r = length ?v"
      using l4 by (simp add: length_randomUnits units_def)
    moreover have "length (unescape ?r) = length (unescape ?v)"
      by (simp add: unescape_randomUnits units_def u)
    ultimately show "\<exists>sedString.
              calls ! i = sedArgs ?v sedString infile
              \<and> sedString = ?r
              \<and> length sedString = length ?v
              \<and> length (unescape sedString) = length (unescape ?v)"
      by blast
  }
  {
    assume "(\<forall>i < units header. rnd i \<noteq> None) \<and> (\<forall>k args b. fst (exec k ''sed'' args b))"
    then have r: "\<forall>i < units header. rnd (0 + i) \<noteq> None" and e: "\<forall>k args b. fst (exec k ''sed'' args b)"
      by simp_all
    show "fst (StripUPXHeaders rnd exec infile binary)"
      unfolding StripUPXHeaders_def
      using StripUPXHeaders_loop_true[of header rnd 0 exec infile 0 binary] ms r e by blast
  }
  {
    fix calls binary'
    assume "StripUPXHeaders rnd (ExecCommand_sed ok fail) infile binary = (True, calls, binary')"
    then show "length binary' = length binary"
      unfolding StripUPXHeaders_def by (rule StripUPXHeaders_loop_length[OF subset_refl])
  }
qed

theorem StripUPXHeaders_replacement_length_witness:
  "fst (StripUPXHeaders (\<lambda>i. Some 0x41) (ExecCommand_sed (\<lambda>k. True) (\<lambda>k b. b)) ''a.out'' ''xxUPX!yy'')
   \<and> length (fst (snd (StripUPXHeaders (\<lambda>i. Some 0x41) (ExecCommand_sed (\<lambda>k. True) (\<lambda>k b. b)) ''a.out'' ''xxUPX!yy''))) = 16
   \<and> hd (fst (snd (StripUPXHeaders (\<lambda>i. Some 0x41) (ExecCommand_sed (\<lambda>k. True) (\<lambda>k b. b)) ''a.out'' ''xxUPX!yy'')))
       = [''-i'', ''s/'' @ raw ''/x49/x6e/x66/x6f/x3a/x20/x54/x68/x69/x73'' @ ''/''
                   @ raw ''/x41/x41/x41/x41/x41/x41/x41/x41/x41/x41'' @ ''/g'', ''a.out'']
   \<and> length (snd (snd (StripUPXHeaders (\<lambda>i. Some 0x41) (ExecCommand_sed (\<lambda>k. True) (\<lambda>k b. b)) ''a.out'' ''xxUPX!yy''))) = 8"
proof -
  let ?rnd = "\<lambda>i :: nat. Some (0x41 :: 8 word)"
  let ?exec = "ExecCommand_sed (\<lambda>k. True) (\<lambda>k b. b)"
  let ?run = "StripUPXHeaders ?rnd ?exec ''a.out'' ''xxUPX!yy''"
  note t = StripUPXHeaders_replacement_length[of ?rnd ?exec "''a.out''" "''xxUPX!yy''" "\<lambda>k. True" "\<lambda>k b. b"]
  have h1: "\<forall>i < units header. ?rnd i \<noteq> None" by simp
  have h2: "\<forall>k args b. fst (?exec k ''sed'' args b)"
    by (simp add: ExecCommand_sed_def split: list.split option.split)
  from t h1 h2 have r: "fst ?run" by blast
  obtain result calls binary' where run: "?run = (result, calls, binary')"
    by (cases ?run)
  with r have res: "result = True" by simp
  from t run res have len: "length calls = length header" by blast
  then have l16: "length calls = 16" by (simp add: header_def)
  from t run have "\<forall>i < length calls. \<exists>sedString.
              calls ! i = sedArgs (header ! i) sedString ''a.out''
              \<and> sedString = randomUnits ?rnd (units (take i header)) (units [header ! i])
              \<and> length sedString = length (header ! i)
              \<and> length (unescape sedString) = length (unescape (header ! i))"
    by blast
  moreover have "0 < length calls"
    using l16 by simp
  ultimately have c0: "calls ! 0 = sedArgs (header ! 0)
                         (randomUnits ?rnd (units (take 0 header)) (units [header ! 0])) ''a.out''"
    by blast
  have u0: "units (take 0 header) = 0"
    by (simp add: units_def)
  have u1: "units [raw ''/x49/x6e/x66/x6f/x3a/x20/x54/x68/x69/x73''] = 10"
    by (simp add: units_def raw_def)
  have r0: "randomUnits ?rnd 0 10 = raw ''/x41/x41/x41/x41/x41/x41/x41/x41/x41/x41''"
    by code_simp
  have h0: "header ! 0 = raw ''/x49/x6e/x66/x6f/x3a/x20/x54/x68/x69/x73''"
    by (simp add: header_def)
  from c0 have "calls ! 0 = [''-i'', ''s/'' @ raw ''/x49/x6e/x66/x6f/x3a/x20/x54/x68/x69/x73'' @ ''/''
                   @ raw ''/x41/x41/x41/x41/x41/x41/x41/x41/x41/x41'' @ ''/g'', ''a.out'']"
    unfolding u0 h0 u1 r0 sedArgs_def .
  moreover have "hd calls = calls ! 0"
    using l16 by (cases calls) simp_all
  ultimately have hd: "hd calls = [''-i'', ''s/'' @ raw ''/x49/x6e/x66/x6f/x3a/x20/x54/x68/x69/x73'' @ ''/''
                   @ raw ''/x41/x41/x41/x41/x41/x41/x41/x41/x41/x41'' @ ''/g'', ''a.out'']"
    by simp
  from t run res have "length binary' = length ''xxUPX!yy''" by blast
  then have l8: "length binary' = 8" by simp
  from res have "result" by simp
  then show ?thesis
    unfolding run fst_conv snd_conv using l16 hd l8 by (intro conjI)
qed

section \<open>The order in which ObfuscateFuncVars takes the tokens\<close>

lemma remdups_snoc: "remdups (ys @ [x]) = remdups (filter (\<lambda>y. y \<noteq> x) ys) @ [x]"
  by (induction ys) auto

lemma Unique_from_remdups:
  "Unique_from seen xs = rev (remdups (rev (filter (\<lambda>x. x \<notin> set seen) xs)))"
proof (induction xs arbitrary: seen)
  case Nil
  then show ?case by simp
next
  case (Cons x xs)
  show ?case
  proof (cases "x \<in> set seen")
    case True
    then show ?thesis by (simp add: Cons.IH)
  next
    case False
    let ?F = "filter (\<lambda>y. y \<notin> set seen) xs"
    have f: "filter (\<lambda>y. y \<notin> set (x # seen)) xs = filter (\<lambda>y. y \<noteq> x) ?F"
      by (induction xs) auto
    have "Unique_from seen (x # xs) = x # rev (remdups (rev (filter (\<lambda>y. y \<noteq> x) ?F)))"
      using False by (simp only: Unique_from.simps if_False Cons.IH f)
    moreover have "rev (remdups (rev (filter (\<lambda>x. x \<notin> set seen) (x # xs))))
        = x # rev (remdups (rev (filter (\<lambda>y. y \<noteq> x) ?F)))"
    proof -
      have "filter (\<lambda>x. x \<notin> set seen) (x # xs) = x # ?F"
        using False by simp
      then show ?thesis
        by (simp only: rev.simps remdups_snoc rev_filter rev_append rev_rev_ident append.simps)
    qed
    ultimately show ?thesis by simp
  qed
qed

lemma Unique_remdups: "Unique xs = rev (remdups (rev xs))"
  by (simp add: Unique_def Unique_from_remdups)

lemma Unique_distinct: "distinct (Unique xs)"
  by (simp add: Unique_remdups)

lemma Unique_set: "set (Unique xs) = set xs"
  by (simp add: Unique_remdups)

text \<open>
  Claim C4, as the code has it. The discovered list is reversed first and deduplicated
  afterwards, so the tokens are taken in the reverse of the discovery order in which every
  token stands at its last occurrence, not at its first.
\<close>

theorem ObfuscateFuncVars_order:
  "ObfuscateFuncVars_words input = rev (remdups (FindAllString_ob False input))
   \<and> ObfuscateFuncVars rnd p input
       = renameAll rnd p (rev (remdups (FindAllString_ob False input))) input"
  by (simp add: ObfuscateFuncVars_def ObfuscateFuncVars_words_def ReverseStringArray_def
      Unique_remdups)

text \<open>
  The order stated by claim C4 (deduplicate, keeping first occurrences, then reverse) is
  not the order of the code: here the code takes \<open>obFoo\<close> before \<open>obFooBar\<close>.
\<close>

theorem ObfuscateFuncVars_order_counterexample:
  "FindAllString_ob False ''obFoo obFooBar obFoo'' = [''obFoo'', ''obFooBar'', ''obFoo'']
   \<and> rev (Unique (FindAllString_ob False ''obFoo obFooBar obFoo'')) = [''obFooBar'', ''obFoo'']
   \<and> ObfuscateFuncVars_words ''obFoo obFooBar obFoo'' = [''obFoo'', ''obFooBar'']"
  by code_simp

theorem ObfuscateFuncVars_order_witness:
  "ObfuscateFuncVars_words ''obA obB obA'' = rev (remdups [''obA'', ''obB'', ''obA''])"
proof -
  have "FindAllString_ob False ''obA obB obA'' = [''obA'', ''obB'', ''obA'']"
    by code_simp
  with ObfuscateFuncVars_order[of "''obA obB obA''"] show ?thesis
    by simp
qed

section \<open>The lines written by GenerateRandomAntiDebug\<close>

lemma checksLoop_fst:
  "fst (checksLoop j vs (t, c)) = t @ launches vs"
  by (induction vs arbitrary: j t c) (simp_all add: launches_def)

lemma Split_Join:
  "ls \<noteq> [] \<Longrightarrow> \<forall>l \<in> set ls. sep \<notin> set l \<Longrightarrow> Split (Join ls [sep]) sep = ls"
proof (induction ls "[sep]" rule: Join.induct)
  case 1
  then show ?case by simp
next
  case (2 l)
  then show ?case by (simp add: Split_no_sep)
next
  case (3 l v va)
  then show ?case by (simp add: Split_append_sep)
qed

lemma Split_nonempty: "Split s sep \<noteq> []"
  by (induction s) (auto split: list.splits)

lemma Split_pieces: "l \<in> set (Split s sep) \<Longrightarrow> sep \<notin> set l"
proof (induction s arbitrary: l)
  case Nil
  then show ?case by simp
next
  case (Cons c cs)
  show ?case
  proof (cases "c = sep")
    case True
    with Cons show ?thesis by auto
  next
    case False
    obtain x xs where sp: "Split cs sep = x # xs"
      using Split_nonempty[of cs sep] by (cases "Split cs sep") auto
    with Cons False show ?thesis by auto
  qed
qed

lemma ShuffleSlice_mset: "mset (ShuffleSlice pick k xs) = mset xs"
  by (simp add: ShuffleSlice_def rearrange_mset)

lemma ShuffleSlice_set: "set (ShuffleSlice pick k xs) = set xs"
  by (metis ShuffleSlice_mset set_mset_mset)

lemma length_injectLines: "length (injectLines pick k ls) = length ls"
  by (induction ls arbitrary: k) simp_all

lemma injectLines_nth:
  "i < length ls \<Longrightarrow>
   (if Contains (ls ! i) ''// OB_CHECK''
    then \<exists>k. injectLines pick k0 ls ! i = launches (ShuffleSlice pick k randomChecks)
    else injectLines pick k0 ls ! i = ls ! i)"
proof (induction ls arbitrary: i k0)
  case Nil
  then show ?case by simp
next
  case (Cons v vs)
  show ?case
  proof (cases i)
    case 0
    then show ?thesis by (auto simp: checksLoop_fst)
  next
    case (Suc n)
    with Cons.prems have "n < length vs" by simp
    from Cons.IH[OF this, of "Suc k0"] Cons.IH[OF this, of k0] Suc show ?thesis by simp
  qed
qed

lemma randomChecks_nl: "v \<in> set randomChecks \<Longrightarrow> nl \<notin> set v"
  by (auto simp: randomChecks_def nl_def)

lemma launches_nl:
  "set checks = set randomChecks \<Longrightarrow> nl \<notin> set (launches checks)"
  using randomChecks_nl by (auto simp: nl_def launches_def)

lemma injectLines_nl:
  "\<forall>l \<in> set ls. nl \<notin> set l \<Longrightarrow> \<forall>l \<in> set (injectLines pick k ls). nl \<notin> set l"
proof (induction ls arbitrary: k)
  case Nil
  then show ?case by simp
next
  case (Cons v vs)
  have "nl \<notin> set (launches (ShuffleSlice pick k randomChecks))"
    by (intro launches_nl) (simp add: ShuffleSlice_set)
  with Cons show ?case by (simp add: checksLoop_fst)
qed

text \<open>
  Claim C3. Whatever the random choices, the output has as many lines as the input; a line
  with the marker has become eight launches, one for each routine of the fixed set, each
  routine once; every other line is in its place, unchanged.
\<close>

theorem GenerateRandomAntiDebug_lines:
  "length (Split (GenerateRandomAntiDebug pick input) nl) = length (Split input nl)
    \<and> (\<forall>i < length (Split input nl).
          if Contains (Split input nl ! i) ''// OB_CHECK''
          then \<exists>checks. mset checks = mset randomChecks \<and> length checks = 8 \<and> distinct checks
                 \<and> Split (GenerateRandomAntiDebug pick input) nl ! i = launches checks
          else Split (GenerateRandomAntiDebug pick input) nl ! i = Split input nl ! i)"
proof -
  let ?ls = "Split input nl"
  let ?out = "injectLines pick 0 ?ls"
  have perm: "mset (ShuffleSlice pick k randomChecks) = mset randomChecks" for k
    by (rule ShuffleSlice_mset)
  have "\<forall>l \<in> set ?ls. nl \<notin> set l"
    using Split_pieces by blast
  from injectLines_nl[where pick = pick and k = 0, OF this] have clean: "\<forall>l \<in> set ?out. nl \<notin> set l" .
  have ne: "?out \<noteq> []"
    using Split_nonempty[of input nl] length_injectLines[of pick 0 ?ls] by (metis length_0_conv)
  have rt: "Split (GenerateRandomAntiDebug pick input) nl = ?out"
    unfolding GenerateRandomAntiDebug_def by (rule Split_Join[OF ne clean])
  have d: "distinct randomChecks" and l: "length randomChecks = 8"
    by (simp_all add: randomChecks_def)
  have shape: "mset c = mset randomChecks \<Longrightarrow> length c = 8 \<and> distinct c" for c
    using d l by (metis mset_eq_length mset_eq_imp_distinct_iff)
  show ?thesis
  proof (intro conjI allI impI)
    show "length (Split (GenerateRandomAntiDebug pick input) nl) = length ?ls"
      by (simp add: rt length_injectLines)
  next
    fix i assume i: "i < length ?ls"
    show "if Contains (?ls ! i) ''// OB_CHECK''
          then \<exists>checks. mset checks = mset randomChecks \<and> length checks = 8 \<and> distinct checks
                 \<and> Split (GenerateRandomAntiDebug pick input) nl ! i = launches checks
          else Split (GenerateRandomAntiDebug pick input) nl ! i = ?ls ! i"
    proof (cases "Contains (?ls ! i) ''// OB_CHECK''")
      case True
      with injectLines_nth[OF i, of pick 0]
      obtain k where "?out ! i = launches (ShuffleSlice pick k randomChecks)"
        by auto
      with True perm[of k] shape[OF perm[of k]] show ?thesis
        unfolding rt by auto
    next
      case False
      with injectLines_nth[OF i, of pick 0] show ?thesis
        unfolding rt by simp
    qed
  qed
qed

theorem GenerateRandomAntiDebug_lines_witness:
  "length (Split (GenerateRandomAntiDebug (\<lambda>k. rev [0..<8]) (''main()'' @ [nl] @ ''// OB_CHECK'' @ [nl] @ ''end'')) nl) = 3
   \<and> Split (GenerateRandomAntiDebug (\<lambda>k. rev [0..<8]) (''main()'' @ [nl] @ ''// OB_CHECK'' @ [nl] @ ''end'')) nl ! 0 = ''main()''
   \<and> (\<exists>checks. mset checks = mset randomChecks \<and> length checks = 8 \<and> distinct checks
         \<and> Split (GenerateRandomAntiDebug (\<lambda>k. rev [0..<8]) (''main()'' @ [nl] @ ''// OB_CHECK'' @ [nl] @ ''end'')) nl ! 1
              = launches checks)"
proof -
  let ?input = "''main()'' @ [nl] @ ''// OB_CHECK'' @ [nl] @ ''end''"
  let ?ls = "[''main()'', ''// OB_CHECK'', ''end'']"
  have s: "Split ?input nl = ?ls"
    by (simp add: nl_def)
  have c0: "Contains ''main()'' ''// OB_CHECK'' = False" and c1: "Contains ''// OB_CHECK'' ''// OB_CHECK'' = True"
    by (simp_all add: Contains_def)
  note t = GenerateRandomAntiDebug_lines[of "\<lambda>k. rev [0..<8]" ?input, unfolded s]
  from t have len: "length (Split (GenerateRandomAntiDebug (\<lambda>k. rev [0..<8]) ?input) nl) = 3"
    by simp
  have i0: "0 < length ?ls" and i1: "1 < length ?ls" and n0: "?ls ! 0 = ''main()''"
    and n1: "?ls ! 1 = ''// OB_CHECK''"
    by simp_all
  note t2 = t[THEN conjunct2, rule_format]
  from t2[OF i0] have l0: "Split (GenerateRandomAntiDebug (\<lambda>k. rev [0..<8]) ?input) nl ! 0 = ''main()''"
    unfolding n0 c0 if_False .
  from t2[OF i1] have l1: "\<exists>checks. mset checks = mset randomChecks \<and> length checks = 8 \<and> distinct checks
                 \<and> Split (GenerateRandomAntiDebug (\<lambda>k. rev [0..<8]) ?input) nl ! 1 = launches checks"
    unfolding n1 c1 if_True .
  from len l0 l1 show ?thesis by blast
qed

section \<open>The generated names\<close>

lemma GenerateTyposquatName_eq: "GenerateTyposquatName rnd p = (typosquat rnd p, p + 128)"
  by (simp add: typosquat_def GenerateTyposquatName_def)

lemma letterRunes_mixed: "set letterRunes \<subseteq> set mixedRunes"
  by (auto simp: mixedRunes_def)

lemma runes_chars:
  "set (concat (letterRunes ! (a mod length letterRunes)
                  # map (\<lambda>i. mixedRunes ! (g i mod length mixedRunes)) js))
     \<subseteq> set (concat mixedRunes)"
proof -
  have "letterRunes ! (a mod length letterRunes) \<in> set letterRunes"
    by (rule nth_mem) (simp add: letterRunes_def)
  then have l: "letterRunes ! (a mod length letterRunes) \<in> set mixedRunes"
    using letterRunes_mixed by blast
  have m: "mixedRunes ! (n mod length mixedRunes) \<in> set mixedRunes" for n
    by (rule nth_mem) (simp add: mixedRunes_def)
  have sub: "set (concat xs) \<subseteq> set (concat mixedRunes)" if "set xs \<subseteq> set mixedRunes" for xs
    using that by auto
  show ?thesis
    by (rule sub) (use l m in auto)
qed

lemma typosquat_chars: "set (typosquat rnd p) \<subseteq> set (concat mixedRunes)"
  unfolding typosquat_def GenerateTyposquatName_def Intn_def fst_conv by (rule runes_chars)

lemma nameChars: "c \<in> set (concat mixedRunes) \<Longrightarrow> c = CHR ''O'' \<or> c = CHR ''0'' \<or> (128 :: nat) \<le> of_char c"
  by (auto simp: mixedRunes_def letterRunes_def)

lemma typosquat_char:
  "c \<in> set (typosquat rnd p) \<Longrightarrow> c = CHR ''O'' \<or> c = CHR ''0'' \<or> (128 :: nat) \<le> of_char c"
  using typosquat_chars nameChars by blast

lemma typosquat_nonempty: "typosquat rnd p \<noteq> []"
proof -
  have "letterRunes ! (n mod length letterRunes) \<in> set letterRunes" for n
    by (rule nth_mem) (simp add: letterRunes_def)
  moreover have "\<forall>x \<in> set letterRunes. x \<noteq> []"
    by (simp add: letterRunes_def)
  ultimately have "letterRunes ! (n mod length letterRunes) \<noteq> []" for n
    by blast
  then show ?thesis
    unfolding typosquat_def GenerateTyposquatName_def Intn_def fst_conv
    by (simp only: concat.simps append_is_Nil_conv) blast
qed

lemma typosquat_no_leave: "\<not> Contains (typosquat rnd p) ''leave''"
proof
  assume "Contains (typosquat rnd p) ''leave''"
  then have "sublist ''leave'' (typosquat rnd p)"
    by (simp add: Contains_sublist)
  then have "set ''leave'' \<subseteq> set (typosquat rnd p)"
    by (rule sublist_set)
  then have "CHR ''l'' \<in> set (typosquat rnd p)" by auto
  from typosquat_char[OF this] show False by simp
qed

section \<open>The loop over the map\<close>

lemma replaceSecrets_run:
  "\<forall>(k, w) \<in> set es. 2 \<le> length w \<Longrightarrow>
   replaceSecrets sf gb es body f = Inr (replaceKeys es body, f @ accessorFuncs sf gb es)"
proof (induction es arbitrary: body f)
  case Nil
  then show ?case by (simp add: replaceKeys_def accessorFuncs_def)
next
  case (Cons e es)
  obtain k w where e: "e = (k, w)" by (cases e)
  with Cons.prems have w: "2 \<le> length w" and rest: "\<forall>(k, w) \<in> set es. 2 \<le> length w"
    by auto
  show ?case
    using w by (simp add: e Cons.IH[OF rest] replaceKeys_def accessorFuncs_def replacement_def)
qed

lemma replaceSecrets_error:
  "replaceSecrets sf gb es body f = Inl e \<Longrightarrow> e = IndexOutOfRange \<and> (\<exists>(k, w) \<in> set es. length w < 2)"
proof (induction es arbitrary: body f)
  case Nil
  then show ?case by simp
next
  case (Cons x es)
  obtain k w where x: "x = (k, w)" by (cases x)
  with Cons show ?case
    by (auto split: if_splits)
qed

lemma replaceSecrets_wf:
  "replaceSecrets sf gb es body f = Inr r \<Longrightarrow> \<forall>(k, w) \<in> set es. 2 \<le> length w"
proof (induction es arbitrary: body f)
  case Nil
  then show ?case by simp
next
  case (Cons x es)
  obtain k w where x: "x = (k, w)" by (cases x)
  with Cons show ?case
    by (auto split: if_splits)
qed

section \<open>The split of the text\<close>

lemma ObfuscateStrings_unfold:
  "ObfuscateStrings rnd pick sf gb p S input =
     (if \<not> Contains input ''import ('' then Inl SliceBoundsOutOfRange
      else (let (S', p') = discover rnd p S (bodyOf input) tickTypes in
            case replaceSecrets sf gb (rearrange pick S') (bodyOf input) [] of
              Inl e \<Rightarrow> Inl e
            | Inr (body', funcString) \<Rightarrow>
                Inr (take (splitPoint input) input @ body' @ [nl] @ funcString, S', p')))"
proof (cases "Contains input ''import (''")
  case False
  then have "Index input ''import ('' < 0"
    by (simp add: Contains_def)
  with False show ?thesis
    by (simp add: ObfuscateStrings_def slice_from_def)
next
  case True
  let ?i = "Index input ''import (''"
  let ?e = "Index (drop (nat ?i) input) '')''"
  from True have i0: "0 \<le> ?i" by (simp add: Contains_def)
  with Index_upper[of input "''import (''"] have iu: "?i \<le> int (length input)" by auto
  have el: "- 1 \<le> ?e" by (rule Index_lower)
  from Index_upper[of "drop (nat ?i) input" "'')''"] i0 iu
  have eu: "?i + ?e + 1 \<le> int (length input)" by auto
  from i0 el have c0: "0 \<le> ?i + ?e + 1" by simp
  from i0 iu have s1: "slice_from input ?i = Inr (drop (nat ?i) input)"
    by (simp add: slice_from_def)
  from c0 eu have s2: "slice_to input (?i + ?e + 1) = Inr (take (splitPoint input) input)"
    and s3: "slice_from input (?i + ?e + 1) = Inr (bodyOf input)"
    by (simp_all add: slice_to_def slice_from_def splitPoint_def bodyOf_def)
  show ?thesis
    using True by (simp add: ObfuscateStrings_def s1 Let_def s2 s3)
qed

section \<open>The registry\<close>

lemma register_new:
  "registrable w \<Longrightarrow> map_of S w = None \<Longrightarrow>
   register rnd p S (w # ws)
     = register rnd (p + 128) (S @ [(w, [drop 1 (take (length w - 1) w), typosquat rnd p])]) ws"
  by (simp add: GenerateTyposquatName_eq registrable_def)

lemma register_skip:
  "\<not> (registrable w \<and> map_of S w = None) \<Longrightarrow> register rnd p S (w # ws) = register rnd p S ws"
  by (auto simp: registrable_def)

declare register.simps(2) [simp del]

lemma register_keeps:
  "map_of S k = Some v \<Longrightarrow> map_of (fst (register rnd p S ws)) k = Some v"
proof (induction ws arbitrary: p S)
  case Nil
  then show ?case by simp
next
  case (Cons w ws)
  show ?case
  proof (cases "registrable w \<and> map_of S w = None")
    case False
    from Cons.IH[OF Cons.prems] show ?thesis
      unfolding register_skip[OF False] .
  next
    case True
    let ?S = "S @ [(w, [drop 1 (take (length w - 1) w), typosquat rnd p])]"
    from Cons.prems have "map_of ?S k = Some v"
      by (simp add: map_add_def)
    from Cons.IH[OF this] True show ?thesis
      by (simp add: register_new)
  qed
qed

lemma map_of_snoc_None: "map_of (S @ [(w, x)]) k = None \<Longrightarrow> map_of S k = None \<and> k \<noteq> w"
  by (auto simp: map_add_def split: option.splits if_splits)

lemma register_grows:
  "\<exists>new. fst (register rnd p S ws) = S @ new
        \<and> snd (register rnd p S ws) = p + 128 * length new
        \<and> (\<forall>k \<in> fst ` set new. map_of S k = None)"
proof (induction ws arbitrary: p S)
  case Nil
  then show ?case by simp
next
  case (Cons w ws)
  show ?case
  proof (cases "registrable w \<and> map_of S w = None")
    case False
    from Cons.IH[of p S] show ?thesis
      unfolding register_skip[OF False] .
  next
    case True
    let ?e = "(w, [drop 1 (take (length w - 1) w), typosquat rnd p])"
    from Cons.IH[of "p + 128" "S @ [?e]"] obtain new where
      n1: "fst (register rnd (p + 128) (S @ [?e]) ws) = (S @ [?e]) @ new" and
      n2: "snd (register rnd (p + 128) (S @ [?e]) ws) = p + 128 + 128 * length new" and
      n3: "\<forall>k \<in> fst ` set new. map_of (S @ [?e]) k = None"
      by blast
    have r: "register rnd p S (w # ws) = register rnd (p + 128) (S @ [?e]) ws"
      using True by (simp add: register_new)
    have "fst (register rnd p S (w # ws)) = S @ (?e # new)"
      unfolding r n1 by simp
    moreover have "snd (register rnd p S (w # ws)) = p + 128 * length (?e # new)"
      unfolding r n2 by simp
    moreover have "\<forall>k \<in> fst ` set (?e # new). map_of S k = None"
    proof
      fix k assume "k \<in> fst ` set (?e # new)"
      then have "k = w \<or> k \<in> fst ` set new" by auto
      then show "map_of S k = None"
      proof
        assume "k = w" with True show ?thesis by simp
      next
        assume "k \<in> fst ` set new"
        with n3 have "map_of (S @ [?e]) k = None" by (rule bspec)
        then show ?thesis by (rule map_of_snoc_None[THEN conjunct1])
      qed
    qed
    ultimately show ?thesis by blast
  qed
qed

lemma register_fresh:
  "map_of S k = None \<Longrightarrow> map_of (fst (register rnd p S ws)) k = Some x \<Longrightarrow>
   registrable k \<and> k \<in> set ws \<and> (\<exists>q. x = [drop 1 (take (length k - 1) k), typosquat rnd q])"
proof (induction ws arbitrary: p S)
  case Nil
  then show ?case by simp
next
  case (Cons w ws)
  show ?case
  proof (cases "registrable w \<and> map_of S w = None")
    case False
    from Cons.prems(2) have "map_of (fst (register rnd p S ws)) k = Some x"
      unfolding register_skip[OF False] .
    from Cons.IH[OF Cons.prems(1) this] show ?thesis by simp
  next
    case True
    let ?e = "(w, [drop 1 (take (length w - 1) w), typosquat rnd p])"
    have r: "register rnd p S (w # ws) = register rnd (p + 128) (S @ [?e]) ws"
      using True by (simp add: register_new)
    from Cons.prems(2) have run: "map_of (fst (register rnd (p + 128) (S @ [?e]) ws)) k = Some x"
      unfolding r .
    show ?thesis
    proof (cases "k = w")
      case kw: True
      have "map_of (S @ [?e]) w = Some (snd ?e)"
        using True by (simp add: map_add_def)
      from register_keeps[OF this, of rnd "p + 128" ws] run kw
      have "x = snd ?e" by simp
      with kw True show ?thesis by auto
    next
      case kw: False
      with Cons.prems(1) have "map_of (S @ [?e]) k = None"
        by (simp add: map_add_def)
      from Cons.IH[OF this run] show ?thesis by simp
    qed
  qed
qed

lemma register_distinct:
  "distinct (map fst S) \<Longrightarrow> distinct (map fst (fst (register rnd p S ws)))"
proof (induction ws arbitrary: p S)
  case Nil
  then show ?case by simp
next
  case (Cons w ws)
  show ?case
  proof (cases "registrable w \<and> map_of S w = None")
    case False
    with Cons show ?thesis by (simp add: register_skip)
  next
    case True
    then have "w \<notin> fst ` set S"
      by (simp add: map_of_eq_None_iff)
    with Cons.prems have "distinct (map fst (S @ [(w, [drop 1 (take (length w - 1) w), typosquat rnd p])]))"
      by simp
    from Cons.IH[OF this] True show ?thesis
      by (simp add: register_new)
  qed
qed

lemma register_covers:
  "w \<in> set ws \<Longrightarrow> registrable w \<Longrightarrow> map_of (fst (register rnd p S ws)) w \<noteq> None"
proof (induction ws arbitrary: p S)
  case Nil
  then show ?case by simp
next
  case (Cons x ws)
  show ?case
  proof (cases "w = x")
    case True
    show ?thesis
    proof (cases "map_of S x")
      case None
      let ?S = "S @ [(x, [drop 1 (take (length x - 1) x), typosquat rnd p])]"
      have "map_of ?S x = Some [drop 1 (take (length x - 1) x), typosquat rnd p]"
        using None by (simp add: map_add_def)
      from register_keeps[OF this] None True Cons.prems(2) show ?thesis
        by (simp add: register_new)
    next
      case (Some v)
      from register_keeps[OF Some] True Some show ?thesis
        by (simp add: register_skip)
    qed
  next
    case False
    with Cons.prems have "w \<in> set ws" by simp
    from Cons.IH[OF this Cons.prems(2)] show ?thesis
      by (cases "registrable x \<and> map_of S x = None") (simp_all add: register_new register_skip)
  qed
qed

lemma register_idle:
  "\<forall>w \<in> set ws. registrable w \<longrightarrow> map_of S w \<noteq> None \<Longrightarrow> register rnd p S ws = (S, p)"
proof (induction ws arbitrary: p S)
  case Nil
  then show ?case by simp
next
  case (Cons w ws)
  then have "\<not> (registrable w \<and> map_of S w = None)" by auto
  with Cons show ?case
    by (simp add: register_skip)
qed


section \<open>What ObfuscateStrings does to the registry\<close>

lemma register_wf:
  "\<forall>(k, w) \<in> set S. 2 \<le> length w \<Longrightarrow> \<forall>(k, w) \<in> set (fst (register rnd p S ws)). 2 \<le> length w"
proof (induction ws arbitrary: p S)
  case Nil
  then show ?case by simp
next
  case (Cons w ws)
  show ?case
  proof (cases "registrable w \<and> map_of S w = None")
    case False
    from Cons.IH[OF Cons.prems] show ?thesis
      unfolding register_skip[OF False] .
  next
    case True
    let ?e = "(w, [drop 1 (take (length w - 1) w), typosquat rnd p])"
    from Cons.prems have "\<forall>(k, w) \<in> set (S @ [?e]). 2 \<le> length w" by simp
    from Cons.IH[OF this] True show ?thesis
      by (simp add: register_new)
  qed
qed

lemma discover_Cons:
  "discover rnd p S body (v # vs) =
     discover rnd (snd (register rnd p S (Unique (FindAllString_tick v body))))
       (fst (register rnd p S (Unique (FindAllString_tick v body)))) body vs"
  by (simp add: split_beta)

declare discover.simps(2) [simp del]

lemma discover_grows:
  "\<exists>new. fst (discover rnd p S body vs) = S @ new
        \<and> snd (discover rnd p S body vs) = p + 128 * length new
        \<and> (\<forall>k \<in> fst ` set new. map_of S k = None)"
proof (induction vs arbitrary: p S)
  case Nil
  then show ?case by simp
next
  case (Cons v vs)
  let ?r = "register rnd p S (Unique (FindAllString_tick v body))"
  from register_grows[of rnd p S "Unique (FindAllString_tick v body)"] obtain n1 where
    a: "fst ?r = S @ n1" "snd ?r = p + 128 * length n1" "\<forall>k \<in> fst ` set n1. map_of S k = None"
    by blast
  from Cons.IH[of "snd ?r" "fst ?r"] obtain n2 where
    b: "fst (discover rnd (snd ?r) (fst ?r) body vs) = fst ?r @ n2"
       "snd (discover rnd (snd ?r) (fst ?r) body vs) = snd ?r + 128 * length n2"
       "\<forall>k \<in> fst ` set n2. map_of (fst ?r) k = None"
    by blast
  have "fst (discover rnd p S body (v # vs)) = fst ?r @ n2"
    unfolding discover_Cons by (rule b(1))
  then have "fst (discover rnd p S body (v # vs)) = S @ (n1 @ n2)"
    by (simp add: a(1))
  moreover have "snd (discover rnd p S body (v # vs)) = snd ?r + 128 * length n2"
    unfolding discover_Cons by (rule b(2))
  then have "snd (discover rnd p S body (v # vs)) = p + 128 * length (n1 @ n2)"
    by (simp add: a(2))
  moreover have "\<forall>k \<in> fst ` set (n1 @ n2). map_of S k = None"
  proof
    fix k assume "k \<in> fst ` set (n1 @ n2)"
    then have "k \<in> fst ` set n1 \<or> k \<in> fst ` set n2" by auto
    then show "map_of S k = None"
    proof
      assume "k \<in> fst ` set n1"
      with a(3) show ?thesis by (rule bspec)
    next
      assume "k \<in> fst ` set n2"
      with b(3) have "map_of (fst ?r) k = None" by (rule bspec)
      then show ?thesis
        unfolding a(1) by (simp add: map_add_def split: option.splits)
    qed
  qed
  ultimately show ?case by blast
qed

lemma discover_keeps:
  "map_of S k = Some x \<Longrightarrow> map_of (fst (discover rnd p S body vs)) k = Some x"
proof (induction vs arbitrary: p S)
  case Nil
  then show ?case by simp
next
  case (Cons v vs)
  from register_keeps[OF Cons.prems]
  have "map_of (fst (register rnd p S (Unique (FindAllString_tick v body)))) k = Some x" .
  from Cons.IH[OF this] show ?case
    unfolding discover_Cons .
qed

lemma discover_distinct:
  "distinct (map fst S) \<Longrightarrow> distinct (map fst (fst (discover rnd p S body vs)))"
proof (induction vs arbitrary: p S)
  case Nil
  then show ?case by simp
next
  case (Cons v vs)
  from Cons.IH[OF register_distinct[OF Cons.prems]] show ?case
    unfolding discover_Cons .
qed

lemma discover_wf:
  "\<forall>(k, w) \<in> set S. 2 \<le> length w \<Longrightarrow> \<forall>(k, w) \<in> set (fst (discover rnd p S body vs)). 2 \<le> length w"
proof (induction vs arbitrary: p S)
  case Nil
  then show ?case by simp
next
  case (Cons v vs)
  from Cons.IH[OF register_wf[OF Cons.prems]] show ?case
    unfolding discover_Cons .
qed

lemma discover_fresh:
  "map_of S k = None \<Longrightarrow> map_of (fst (discover rnd p S body vs)) k = Some x \<Longrightarrow>
   registrable k \<and> (\<exists>v \<in> set vs. k \<in> set (FindAllString_tick v body))
     \<and> (\<exists>q. x = [drop 1 (take (length k - 1) k), typosquat rnd q])"
proof (induction vs arbitrary: p S)
  case Nil
  then show ?case by simp
next
  case (Cons v vs)
  let ?r = "register rnd p S (Unique (FindAllString_tick v body))"
  from Cons.prems(2) have run: "map_of (fst (discover rnd (snd ?r) (fst ?r) body vs)) k = Some x"
    unfolding discover_Cons .
  show ?case
  proof (cases "map_of (fst ?r) k")
    case None
    from Cons.IH[OF None run] show ?thesis by auto
  next
    case (Some y)
    from discover_keeps[OF Some, of rnd "snd ?r" body vs] run have "y = x" by simp
    with register_fresh[OF Cons.prems(1) Some] show ?thesis
      by (auto simp: Unique_set)
  qed
qed

lemma discover_covers:
  "v \<in> set vs \<Longrightarrow> w \<in> set (FindAllString_tick v body) \<Longrightarrow> registrable w \<Longrightarrow>
   map_of (fst (discover rnd p S body vs)) w \<noteq> None"
proof (induction vs arbitrary: p S)
  case Nil
  then show ?case by simp
next
  case (Cons u vs)
  let ?r = "register rnd p S (Unique (FindAllString_tick u body))"
  show ?case
  proof (cases "v = u")
    case True
    with Cons.prems(2) have "w \<in> set (Unique (FindAllString_tick u body))"
      by (simp add: Unique_set)
    from register_covers[OF this Cons.prems(3), of rnd p S]
    obtain y where "map_of (fst ?r) w = Some y" by auto
    from discover_keeps[OF this] show ?thesis
      unfolding discover_Cons by simp
  next
    case False
    with Cons.prems(1) have "v \<in> set vs" by simp
    from Cons.IH[OF this Cons.prems(2,3)] show ?thesis
      unfolding discover_Cons .
  qed
qed

lemma discover_idle:
  "\<forall>v \<in> set vs. \<forall>w \<in> set (FindAllString_tick v body). registrable w \<longrightarrow> map_of S w \<noteq> None \<Longrightarrow>
   discover rnd p S body vs = (S, p)"
proof (induction vs arbitrary: p S)
  case Nil
  then show ?case by simp
next
  case (Cons v vs)
  from Cons.prems have "\<forall>w \<in> set (Unique (FindAllString_tick v body)). registrable w \<longrightarrow> map_of S w \<noteq> None"
    by (simp add: Unique_set)
  from register_idle[OF this]
  have r: "register rnd p S (Unique (FindAllString_tick v body)) = (S, p)" .
  from Cons.prems have "\<forall>v \<in> set vs. \<forall>w \<in> set (FindAllString_tick v body). registrable w \<longrightarrow> map_of S w \<noteq> None"
    by simp
  from Cons.IH[OF this] show ?case
    unfolding discover_Cons r by simp
qed

lemma discover_twice:
  "discover rnd (snd (discover rnd p S body vs)) (fst (discover rnd p S body vs)) body vs
     = discover rnd p S body vs"
proof -
  let ?d = "discover rnd p S body vs"
  have "\<forall>v \<in> set vs. \<forall>w \<in> set (FindAllString_tick v body). registrable w \<longrightarrow> map_of (fst ?d) w \<noteq> None"
    using discover_covers by blast
  from discover_idle[OF this] show ?thesis by simp
qed

lemma ObfuscateStrings_result:
  assumes "ObfuscateStrings rnd pick sf gb p S input = Inr (out, S', p')"
  shows "Contains input ''import (''"
    and "discover rnd p S (bodyOf input) tickTypes = (S', p')"
    and "\<forall>(k, w) \<in> set S'. 2 \<le> length w"
    and "out = take (splitPoint input) input @ replaceKeys (rearrange pick S') (bodyOf input)
                 @ [nl] @ accessorFuncs sf gb (rearrange pick S')"
proof -
  show c: "Contains input ''import (''"
    using assms by (auto simp: ObfuscateStrings_unfold split: if_splits)
  obtain S1 p1 where d: "discover rnd p S (bodyOf input) tickTypes = (S1, p1)"
    by (cases "discover rnd p S (bodyOf input) tickTypes")
  with assms c obtain body' f where
    r: "replaceSecrets sf gb (rearrange pick S1) (bodyOf input) [] = Inr (body', f)"
    and o: "out = take (splitPoint input) input @ body' @ [nl] @ f" and s: "S' = S1" "p' = p1"
    by (auto simp: ObfuscateStrings_unfold split: sum.splits)
  from d s show "discover rnd p S (bodyOf input) tickTypes = (S', p')" by simp
  from replaceSecrets_wf[OF r] have wf: "\<forall>(k, w) \<in> set (rearrange pick S'). 2 \<le> length w"
    using s by simp
  then show "\<forall>(k, w) \<in> set S'. 2 \<le> length w"
    by (simp add: rearrange_set)
  from replaceSecrets_run[OF wf, of sf gb "bodyOf input" "[]"] r s o
  show "out = take (splitPoint input) input @ replaceKeys (rearrange pick S') (bodyOf input)
                 @ [nl] @ accessorFuncs sf gb (rearrange pick S')"
    by simp
qed

lemma ObfuscateStrings_returns:
  assumes "Contains input ''import (''" and "\<forall>(k, w) \<in> set S. 2 \<le> length w"
  shows "ObfuscateStrings rnd pick sf gb p S input =
           Inr (take (splitPoint input) input
                  @ replaceKeys (rearrange pick (fst (discover rnd p S (bodyOf input) tickTypes))) (bodyOf input)
                  @ [nl] @ accessorFuncs sf gb (rearrange pick (fst (discover rnd p S (bodyOf input) tickTypes))),
                fst (discover rnd p S (bodyOf input) tickTypes),
                snd (discover rnd p S (bodyOf input) tickTypes))"
proof -
  let ?S = "fst (discover rnd p S (bodyOf input) tickTypes)"
  from discover_wf[OF assms(2)] have "\<forall>(k, w) \<in> set (rearrange pick ?S). 2 \<le> length w"
    by (simp add: rearrange_set)
  from replaceSecrets_run[OF this, of sf gb "bodyOf input" "[]"] assms(1) show ?thesis
    by (simp add: ObfuscateStrings_unfold split_beta)
qed

text \<open>
  Claim C10. The function ends in the panic of the slice expression exactly when the
  input does not contain \<open>import (\<close>: then \<open>Index\<close> is \<open>-1\<close> and the lower bound of the
  slice is negative. When the input contains it, both cuts are in range, and the function
  returns a result for every map whose entries hold the two strings that the function
  reads (as every entry has that the function adds itself).
\<close>

theorem ObfuscateStrings_import_precondition:
  "(ObfuscateStrings rnd pick sf gb p Secrets input = Inl SliceBoundsOutOfRange
      \<longleftrightarrow> \<not> Contains input ''import ('')
   \<and> (\<not> Contains input ''import ('' \<longrightarrow>
        Index input ''import ('' = - 1
        \<and> slice_from input (Index input ''import ('') = Inl SliceBoundsOutOfRange)
   \<and> (Contains input ''import ('' \<and> (\<forall>(k, w) \<in> set Secrets. 2 \<le> length w) \<longrightarrow>
        (\<exists>out S' p'. ObfuscateStrings rnd pick sf gb p Secrets input = Inr (out, S', p')))"
proof (intro conjI impI)
  show "ObfuscateStrings rnd pick sf gb p Secrets input = Inl SliceBoundsOutOfRange
          \<longleftrightarrow> \<not> Contains input ''import (''"
  proof
    assume e: "ObfuscateStrings rnd pick sf gb p Secrets input = Inl SliceBoundsOutOfRange"
    show "\<not> Contains input ''import (''"
    proof
      assume c: "Contains input ''import (''"
      obtain S1 p1 where d: "discover rnd p Secrets (bodyOf input) tickTypes = (S1, p1)"
        by (cases "discover rnd p Secrets (bodyOf input) tickTypes")
      from e c d have "replaceSecrets sf gb (rearrange pick S1) (bodyOf input) [] = Inl SliceBoundsOutOfRange"
        by (auto simp: ObfuscateStrings_unfold split: sum.splits)
      from replaceSecrets_error[OF this] show False by simp
    qed
  next
    assume "\<not> Contains input ''import (''"
    then show "ObfuscateStrings rnd pick sf gb p Secrets input = Inl SliceBoundsOutOfRange"
      by (simp add: ObfuscateStrings_unfold)
  qed
next
  assume n: "\<not> Contains input ''import (''"
  with Index_lower[of input "''import (''"] show i: "Index input ''import ('' = - 1"
    by (simp add: Contains_def)
  show "slice_from input (Index input ''import ('') = Inl SliceBoundsOutOfRange"
    unfolding i by (simp add: slice_from_def)
next
  assume "Contains input ''import ('' \<and> (\<forall>(k, w) \<in> set Secrets. 2 \<le> length w)"
  then show "\<exists>out S' p'. ObfuscateStrings rnd pick sf gb p Secrets input = Inr (out, S', p')"
    using ObfuscateStrings_returns by blast
qed


lemmas string_eval = Contains_def splitPoint_def bodyOf_def tickTypes_def discover_Cons Unique_def
  register_new register_skip registrable_def backtick_def squote_def dquote_def bslash_def nl_def

lemma ex_body: "bodyOf (''import ()x := '' @ [dquote] @ ''ab'' @ [dquote]) = ''x := '' @ [dquote] @ ''ab'' @ [dquote]"
  by (simp add: string_eval)

lemma ex_split: "take (splitPoint (''import ()x := '' @ [dquote] @ ''ab'' @ [dquote])) (''import ()x := '' @ [dquote] @ ''ab'' @ [dquote]) = ''import ()''"
  by (simp add: string_eval)

lemma ex_discover:
  "discover rnd 0 [] (''x := '' @ [dquote] @ ''ab'' @ [dquote]) tickTypes
     = ([([dquote] @ ''ab'' @ [dquote], [''ab'', typosquat rnd 0])], 128)"
  by (simp add: string_eval)

theorem ObfuscateStrings_import_precondition_witness:
  "Contains ''import ()'' ''import (''
   \<and> (\<exists>out S' p'. ObfuscateStrings (\<lambda>_. 0) [] Sprintf_s (\<lambda>_. []) 0 [] ''import ()'' = Inr (out, S', p'))
   \<and> \<not> Contains ''package main'' ''import (''
   \<and> ObfuscateStrings (\<lambda>_. 0) [] Sprintf_s (\<lambda>_. []) 0 [] ''package main'' = Inl SliceBoundsOutOfRange"
proof -
  have h1: "Contains ''import ()'' ''import (''" and h2: "\<forall>(k, w) \<in> set ([] :: secrets). 2 \<le> length w"
    and h3: "\<not> Contains ''package main'' ''import (''"
    by (simp_all add: Contains_def)
  from ObfuscateStrings_import_precondition[of "\<lambda>_. 0" "[]" Sprintf_s "\<lambda>_. []" 0 "[]" "''import ()''"] h1 h2
  have a: "\<exists>out S' p'. ObfuscateStrings (\<lambda>_. 0) [] Sprintf_s (\<lambda>_. []) 0 [] ''import ()'' = Inr (out, S', p')"
    by blast
  from ObfuscateStrings_import_precondition[of "\<lambda>_. 0" "[]" Sprintf_s "\<lambda>_. []" 0 "[]" "''package main''"] h3
  have b: "ObfuscateStrings (\<lambda>_. 0) [] Sprintf_s (\<lambda>_. []) 0 [] ''package main'' = Inl SliceBoundsOutOfRange"
    by blast
  from h1 h2 a h3 b show ?thesis by blast
qed

text \<open>
  Claim C5. A run adds entries at the end of the map and draws one name (128 draws) for
  each of them; the added keys were not in the map; no entry that was in the map is
  changed or removed; keys stay distinct; and a second run on the same input, in the map
  and at the position the first run left, adds nothing and draws nothing.
\<close>

theorem Secrets_registry_append_only:
  assumes "ObfuscateStrings rnd pick sf gb p Secrets input = Inr (out, S', p')"
  shows "(\<exists>new. S' = Secrets @ new \<and> p' = p + 128 * length new
            \<and> (\<forall>k \<in> fst ` set new. map_of Secrets k = None))
    \<and> (\<forall>k x. map_of Secrets k = Some x \<longrightarrow> map_of S' k = Some x)
    \<and> (distinct (map fst Secrets) \<longrightarrow> distinct (map fst S'))
    \<and> (\<forall>pick2. \<exists>out2. ObfuscateStrings rnd pick2 sf gb p' S' input = Inr (out2, S', p'))"
proof -
  note r = ObfuscateStrings_result[OF assms]
  let ?d = "discover rnd p Secrets (bodyOf input) tickTypes"
  from r(2) have f: "fst ?d = S'" and s: "snd ?d = p'" by simp_all
  have "\<exists>new. S' = Secrets @ new \<and> p' = p + 128 * length new
            \<and> (\<forall>k \<in> fst ` set new. map_of Secrets k = None)"
    using discover_grows[of rnd p Secrets "bodyOf input" tickTypes] unfolding f s .
  moreover have "\<forall>k x. map_of Secrets k = Some x \<longrightarrow> map_of S' k = Some x"
    using discover_keeps[of Secrets _ _ rnd p "bodyOf input" tickTypes] unfolding f by blast
  moreover have "distinct (map fst Secrets) \<longrightarrow> distinct (map fst S')"
    using discover_distinct[of Secrets rnd p "bodyOf input" tickTypes] unfolding f by blast
  moreover have "\<forall>pick2. \<exists>out2. ObfuscateStrings rnd pick2 sf gb p' S' input = Inr (out2, S', p')"
  proof
    fix pick2
    have again: "discover rnd p' S' (bodyOf input) tickTypes = (S', p')"
      using discover_twice[of rnd p Secrets "bodyOf input" tickTypes] unfolding r(2) by simp
    from ObfuscateStrings_returns[OF r(1) r(3), of rnd pick2 sf gb p']
    show "\<exists>out2. ObfuscateStrings rnd pick2 sf gb p' S' input = Inr (out2, S', p')"
      unfolding again by simp
  qed
  ultimately show ?thesis by blast
qed


lemma ex_replace:
  "ReplaceAll (''x := '' @ [dquote] @ ''ab'' @ [dquote]) ([dquote] @ ''ab'' @ [dquote]) new = ''x := '' @ new"
  by (simp add: dquote_def)

lemma replacement_typosquat: "replacement [s, typosquat rnd p] = typosquat rnd p @ ''()''"
  by (simp add: replacement_def typosquat_no_leave)

lemma accessorFuncs_typosquat:
  "accessorFuncs sf gb [(k, [s, typosquat rnd p])] = GenerateStringFunc sf gb s (typosquat rnd p) @ [nl]"
  by (simp add: accessorFuncs_def typosquat_no_leave)

lemma rearrange_single: "rearrange [0] [x] = [x]"
  by (simp add: rearrange_def)

lemma ex_run:
  "ObfuscateStrings rnd [0] sf gb 0 [] (''import ()x := '' @ [dquote] @ ''ab'' @ [dquote])
     = Inr (''import ()x := '' @ typosquat rnd 0 @ ''()'' @ [nl]
              @ GenerateStringFunc sf gb ''ab'' (typosquat rnd 0) @ [nl],
            [([dquote] @ ''ab'' @ [dquote], [''ab'', typosquat rnd 0])], 128)"
proof -
  have c: "Contains (''import ()x := '' @ [dquote] @ ''ab'' @ [dquote]) ''import (''"
    by (simp add: Contains_def)
  have w: "\<forall>(k, w) \<in> set ([] :: secrets). 2 \<le> length w" by simp
  show ?thesis
    unfolding ObfuscateStrings_returns[OF c w] ex_body ex_split ex_discover fst_conv snd_conv
      rearrange_single
    by (simp add: replaceKeys_def replacement_typosquat accessorFuncs_typosquat ex_replace[simplified])
qed

theorem Secrets_registry_append_only_witness:
  "ObfuscateStrings (\<lambda>_. 0) [0] Sprintf_s (\<lambda>_. ''B'') 0 [] (''import ()x := '' @ [dquote] @ ''ab'' @ [dquote])
     = Inr (''import ()x := '' @ typosquat (\<lambda>_. 0) 0 @ ''()'' @ [nl]
              @ GenerateStringFunc Sprintf_s (\<lambda>_. ''B'') ''ab'' (typosquat (\<lambda>_. 0) 0) @ [nl],
            [([dquote] @ ''ab'' @ [dquote], [''ab'', typosquat (\<lambda>_. 0) 0])], 128)
   \<and> (\<forall>pick2. \<exists>out2.
         ObfuscateStrings (\<lambda>_. 0) pick2 Sprintf_s (\<lambda>_. ''B'') 128
             [([dquote] @ ''ab'' @ [dquote], [''ab'', typosquat (\<lambda>_. 0) 0])]
             (''import ()x := '' @ [dquote] @ ''ab'' @ [dquote])
           = Inr (out2, [([dquote] @ ''ab'' @ [dquote], [''ab'', typosquat (\<lambda>_. 0) 0])], 128))"
proof -
  note h = ex_run[of "\<lambda>_. 0" Sprintf_s "\<lambda>_. ''B''"]
  from Secrets_registry_append_only[OF h] h show ?thesis by blast
qed


section \<open>Literals that are skipped\<close>

lemma replaceKeys_absent:
  "\<forall>k \<in> fst ` set es. \<not> sublist k body \<Longrightarrow> replaceKeys es body = body"
proof (induction es)
  case Nil
  then show ?case by (simp add: replaceKeys_def)
next
  case (Cons e es)
  obtain k w where e: "e = (k, w)" by (cases e)
  from Cons.prems e have "\<not> sublist k body" by simp
  then have "ReplaceAll body k (replacement w) = body" by (rule ReplaceAll_absent)
  moreover from Cons have "replaceKeys es body = body" by simp
  ultimately show ?case by (simp add: replaceKeys_Cons e)
qed

text \<open>
  One replacement leaves a piece of the text as it is, and rewrites the text before it and
  the text after it each on its own, when no occurrence of the key has a byte in common
  with the piece.
\<close>

lemma prefix_within: "prefix k (a @ r) \<Longrightarrow> length k \<le> length a \<Longrightarrow> prefix k a"
  by (metis prefix_length_prefix prefixI)

lemma ReplaceAll_cut:
  "k \<noteq> [] \<Longrightarrow> \<forall>u v. a = u @ v \<longrightarrow> v \<noteq> [] \<longrightarrow> prefix k (v @ r) \<longrightarrow> prefix k v \<Longrightarrow>
   ReplaceAll (a @ r) k n = ReplaceAll a k n @ ReplaceAll r k n"
proof (induction a k n rule: ReplaceAll.induct)
  case (1 old new)
  then show ?case by simp
next
  case (2 x xs old new)
  note ne = "2.prems"(1) and H = "2.prems"(2)
  show ?case
  proof (cases "prefix old ((x # xs) @ r)")
    case True
    from H True have p: "prefix old (x # xs)"
      by (metis append_Nil list.distinct(1))
    then have len: "length old \<le> length (x # xs)" by (rule prefix_length_le)
    have H': "\<forall>u v. drop (length old) (x # xs) = u @ v \<longrightarrow> v \<noteq> [] \<longrightarrow> prefix old (v @ r) \<longrightarrow> prefix old v"
    proof (intro allI impI)
      fix u v
      assume d: "drop (length old) (x # xs) = u @ v" and v: "v \<noteq> []" and pr: "prefix old (v @ r)"
      have "x # xs = take (length old) (x # xs) @ drop (length old) (x # xs)"
        by simp
      with d have "x # xs = (take (length old) (x # xs) @ u) @ v"
        by simp
      with H v pr show "prefix old v" by blast
    qed
    have "ReplaceAll ((x # xs) @ r) old new
            = new @ ReplaceAll (drop (length old) ((x # xs) @ r)) old new"
      using True ne by simp
    also have "drop (length old) ((x # xs) @ r) = drop (length old) (x # xs) @ r"
      using len unfolding drop_append by simp
    also have "ReplaceAll (drop (length old) (x # xs) @ r) old new
                 = ReplaceAll (drop (length old) (x # xs)) old new @ ReplaceAll r old new"
      by (rule "2.IH"(2)[OF ne p ne H'])
    finally show ?thesis
      using p ne by simp
  next
    case False
    then have np: "\<not> prefix old (x # xs)"
      using prefix_prefix by blast
    have H': "\<forall>u v. xs = u @ v \<longrightarrow> v \<noteq> [] \<longrightarrow> prefix old (v @ r) \<longrightarrow> prefix old v"
    proof (intro allI impI)
      fix u v
      assume "xs = u @ v" and v: "v \<noteq> []" and pr: "prefix old (v @ r)"
      then have "x # xs = (x # u) @ v" by simp
      with H v pr show "prefix old v" by blast
    qed
    have "ReplaceAll ((x # xs) @ r) old new = x # ReplaceAll (xs @ r) old new"
      using False ne by simp
    also have "ReplaceAll (xs @ r) old new = ReplaceAll xs old new @ ReplaceAll r old new"
      by (rule "2.IH"(3)[OF ne np ne H'])
    finally show ?thesis
      using np ne by simp
  qed
qed

lemma ReplaceAll_keep:
  "k \<noteq> [] \<Longrightarrow> \<forall>u v. l = u @ v \<longrightarrow> v \<noteq> [] \<longrightarrow> \<not> prefix k (v @ r) \<Longrightarrow>
   ReplaceAll (l @ r) k n = l @ ReplaceAll r k n"
proof (induction l)
  case Nil
  show ?case by simp
next
  case (Cons x l)
  from Cons.prems(2) have np: "\<not> prefix k ((x # l) @ r)"
    by (metis append_Nil list.distinct(1))
  have "\<forall>u v. l = u @ v \<longrightarrow> v \<noteq> [] \<longrightarrow> \<not> prefix k (v @ r)"
  proof (intro allI impI)
    fix u v
    assume "l = u @ v" and v: "v \<noteq> []"
    then have "x # l = (x # u) @ v" by simp
    with Cons.prems(2) v show "\<not> prefix k (v @ r)" by blast
  qed
  from Cons.IH[OF Cons.prems(1) this] np Cons.prems(1) show ?case
    by simp
qed

lemma overlapFree_all:
  "overlapFree k pre lit post =
     (k \<noteq> [] \<and> (\<forall>i < length pre + length lit.
                   prefix k (drop i (pre @ lit @ post)) \<longrightarrow> i + length k \<le> length pre))"
  by (auto simp: overlapFree_def list_all_iff)

lemma overlapFree_ReplaceAll:
  assumes "overlapFree k pre lit post"
  shows "ReplaceAll (pre @ lit @ post) k n = ReplaceAll pre k n @ lit @ ReplaceAll post k n"
proof -
  from assms have ne: "k \<noteq> []"
    and H: "\<forall>i < length pre + length lit.
              prefix k (drop i (pre @ lit @ post)) \<longrightarrow> i + length k \<le> length pre"
    by (simp_all add: overlapFree_all)
  have before: "\<forall>u v. pre = u @ v \<longrightarrow> v \<noteq> [] \<longrightarrow> prefix k (v @ lit @ post) \<longrightarrow> prefix k v"
  proof (intro allI impI)
    fix u v
    assume pre: "pre = u @ v" and v: "v \<noteq> []" and pr: "prefix k (v @ lit @ post)"
    from pre have "drop (length u) (pre @ lit @ post) = v @ lit @ post" by simp
    moreover from pre v have "length u < length pre + length lit" by simp
    ultimately have "length u + length k \<le> length pre"
      using H pr by metis
    with pre have "length k \<le> length v" by simp
    with pr show "prefix k v" by (rule prefix_within)
  qed
  have inside: "\<forall>u v. lit = u @ v \<longrightarrow> v \<noteq> [] \<longrightarrow> \<not> prefix k (v @ post)"
  proof (intro allI impI notI)
    fix u v
    assume lit: "lit = u @ v" and v: "v \<noteq> []" and pr: "prefix k (v @ post)"
    from lit have "drop (length pre + length u) (pre @ lit @ post) = v @ post" by simp
    moreover from lit v have "length pre + length u < length pre + length lit" by simp
    ultimately have "length pre + length u + length k \<le> length pre"
      using H pr by metis
    with ne show False by simp
  qed
  have "ReplaceAll (pre @ lit @ post) k n = ReplaceAll pre k n @ ReplaceAll (lit @ post) k n"
    by (rule ReplaceAll_cut[OF ne before])
  also have "ReplaceAll (lit @ post) k n = lit @ ReplaceAll post k n"
    by (rule ReplaceAll_keep[OF ne inside])
  finally show ?thesis .
qed

lemma untouched_replaceKeys:
  "untouched es pre lit post \<Longrightarrow>
   replaceKeys es (pre @ lit @ post) = replaceKeys es pre @ lit @ replaceKeys es post"
proof (induction es arbitrary: pre post)
  case Nil
  show ?case by (simp add: replaceKeys_def)
next
  case (Cons e es)
  obtain k w where e: "e = (k, w)" by (cases e)
  from Cons.prems e have o: "overlapFree k pre lit post"
    and u: "untouched es (ReplaceAll pre k (replacement w)) lit (ReplaceAll post k (replacement w))"
    by simp_all
  show ?case
    unfolding e replaceKeys_Cons overlapFree_ReplaceAll[OF o] by (rule Cons.IH[OF u])
qed

text \<open>
  The same from what the text shows before any replacement: no key occurs in the piece,
  and the byte before the piece and the byte after it are in no key, so that no occurrence
  of a key reaches across an end of the piece.
\<close>

lemma replaceKeys_split:
  "\<forall>k \<in> fst ` set es. k \<noteq> [] \<and> c \<notin> set k \<Longrightarrow>
   replaceKeys es (a @ c # b) = replaceKeys es a @ c # replaceKeys es b"
proof (induction es arbitrary: a b)
  case Nil
  show ?case by (simp add: replaceKeys_def)
next
  case (Cons e es)
  obtain k w where e: "e = (k, w)" by (cases e)
  from Cons.prems e have k: "k \<noteq> []" "c \<notin> set k"
    and rest: "\<forall>k \<in> fst ` set es. k \<noteq> [] \<and> c \<notin> set k"
    by simp_all
  show ?case
    unfolding e replaceKeys_Cons ReplaceAll_split[OF k] by (rule Cons.IH[OF rest])
qed

lemma replaceKeys_Nil: "\<forall>k \<in> fst ` set es. k \<noteq> [] \<Longrightarrow> replaceKeys es [] = []"
proof (induction es)
  case Nil
  show ?case by (simp add: replaceKeys_def)
next
  case (Cons e es)
  obtain k w where e: "e = (k, w)" by (cases e)
  with Cons show ?case by (simp add: replaceKeys_Cons)
qed

lemma replaceKeys_frame:
  assumes lit: "\<forall>k \<in> fst ` set es. \<not> sublist k lit"
    and pre: "pre = [] \<or> (\<forall>k \<in> fst ` set es. last pre \<notin> set k)"
    and post: "post = [] \<or> (\<forall>k \<in> fst ` set es. hd post \<notin> set k)"
  shows "replaceKeys es (pre @ lit @ post) = replaceKeys es pre @ lit @ replaceKeys es post"
proof -
  let ?R = "replaceKeys es"
  have ne: "\<forall>k \<in> fst ` set es. k \<noteq> []"
  proof
    fix k assume "k \<in> fst ` set es"
    with lit have "\<not> sublist k lit" by blast
    then show "k \<noteq> []" by auto
  qed
  have nil: "?R [] = []"
    by (rule replaceKeys_Nil[OF ne])
  have cut: "?R (a @ c # b) = ?R a @ c # ?R b" if "\<forall>k \<in> fst ` set es. c \<notin> set k" for a c b
  proof (rule replaceKeys_split)
    from ne that show "\<forall>k \<in> fst ` set es. k \<noteq> [] \<and> c \<notin> set k" by blast
  qed
  have left: "?R (pre @ x) = ?R pre @ ?R x" for x
  proof (cases "pre = []")
    case True
    then show ?thesis by (simp add: nil)
  next
    case False
    with pre have c: "\<forall>k \<in> fst ` set es. last pre \<notin> set k" by simp
    from False have "pre = butlast pre @ [last pre]" by simp
    then obtain a where a: "pre = a @ [last pre]" ..
    have "?R (pre @ x) = ?R (a @ last pre # x)"
      by (subst a) simp
    also have "\<dots> = ?R a @ last pre # ?R x"
      by (rule cut[OF c])
    finally have whole: "?R (pre @ x) = ?R a @ last pre # ?R x" .
    have "?R (a @ [last pre]) = ?R a @ [last pre]"
      using cut[OF c, of a "[]"] nil by simp
    with a have "?R pre = ?R a @ [last pre]"
      by simp
    with whole show ?thesis by simp
  qed
  have right: "?R (x @ post) = ?R x @ ?R post" for x
  proof (cases post)
    case Nil
    then show ?thesis by (simp add: nil)
  next
    case (Cons d post')
    with post have d: "\<forall>k \<in> fst ` set es. d \<notin> set k" by simp
    have "?R post = d # ?R post'"
      using cut[OF d, of "[]" post'] Cons nil by simp
    with cut[OF d, of x post'] Cons show ?thesis by simp
  qed
  have "?R lit = lit"
    by (rule replaceKeys_absent[OF lit])
  then show ?thesis
    unfolding left right by simp
qed

text \<open>
  Claim C9, as the code has it. Whatever literals the body holds, the function returns a
  result when the input has its import section and the map holds the strings that are read.
  A literal with a backslash, or with nothing between its quotes, is never added to the
  map, and the accessor functions are those of the entries of the map and no other. Such a
  literal is not looked for in the body, but it is not protected either. It is left as it
  is, between what the loop makes of the text before it and of the text after it, when at
  the turn of every entry no occurrence of the key has a byte in common with it; this is
  so when no key of the map occurs in it and the bytes next to it are in no key. A key
  that occurs inside a skipped literal, or across one of its ends, is replaced there.
\<close>

theorem skipped_literals:
  "(Contains input ''import ('' \<and> (\<forall>(k, w) \<in> set Secrets. 2 \<le> length w) \<longrightarrow>
      (\<exists>out S' p'. ObfuscateStrings rnd pick sf gb p Secrets input = Inr (out, S', p')))
   \<and> (\<forall>out S' p'. ObfuscateStrings rnd pick sf gb p Secrets input = Inr (out, S', p') \<longrightarrow>
        (\<forall>w. \<not> registrable w \<and> map_of Secrets w = None \<longrightarrow> map_of S' w = None)
      \<and> out = take (splitPoint input) input @ replaceKeys (rearrange pick S') (bodyOf input)
                 @ [nl] @ accessorFuncs sf gb (rearrange pick S')
      \<and> (\<forall>pre lit post.
            bodyOf input = pre @ lit @ post \<and> untouched (rearrange pick S') pre lit post \<longrightarrow>
            replaceKeys (rearrange pick S') (bodyOf input)
              = replaceKeys (rearrange pick S') pre @ lit @ replaceKeys (rearrange pick S') post)
      \<and> (\<forall>pre lit post.
            bodyOf input = pre @ lit @ post
            \<and> (\<forall>k \<in> fst ` set S'. \<not> sublist k lit)
            \<and> (pre = [] \<or> (\<forall>k \<in> fst ` set S'. last pre \<notin> set k))
            \<and> (post = [] \<or> (\<forall>k \<in> fst ` set S'. hd post \<notin> set k)) \<longrightarrow>
            replaceKeys (rearrange pick S') (bodyOf input)
              = replaceKeys (rearrange pick S') pre @ lit @ replaceKeys (rearrange pick S') post))"
proof (intro conjI allI impI)
  assume "Contains input ''import ('' \<and> (\<forall>(k, w) \<in> set Secrets. 2 \<le> length w)"
  then show "\<exists>out S' p'. ObfuscateStrings rnd pick sf gb p Secrets input = Inr (out, S', p')"
    using ObfuscateStrings_returns by blast
next
  fix out S' p' w
  assume run: "ObfuscateStrings rnd pick sf gb p Secrets input = Inr (out, S', p')"
    and w: "\<not> registrable w \<and> map_of Secrets w = None"
  note r = ObfuscateStrings_result[OF run]
  show "map_of S' w = None"
  proof (cases "map_of S' w")
    case None
    then show ?thesis .
  next
    case (Some x)
    then have "map_of (fst (discover rnd p Secrets (bodyOf input) tickTypes)) w = Some x"
      by (simp add: r(2))
    from discover_fresh[OF _ this] w show ?thesis by simp
  qed
next
  fix out S' p'
  assume run: "ObfuscateStrings rnd pick sf gb p Secrets input = Inr (out, S', p')"
  from ObfuscateStrings_result(4)[OF run]
  show "out = take (splitPoint input) input @ replaceKeys (rearrange pick S') (bodyOf input)
                 @ [nl] @ accessorFuncs sf gb (rearrange pick S')" .
next
  fix out S' p' pre lit post
  assume "ObfuscateStrings rnd pick sf gb p Secrets input = Inr (out, S', p')"
    and "bodyOf input = pre @ lit @ post \<and> untouched (rearrange pick S') pre lit post"
  then show "replaceKeys (rearrange pick S') (bodyOf input)
              = replaceKeys (rearrange pick S') pre @ lit @ replaceKeys (rearrange pick S') post"
    using untouched_replaceKeys by simp
next
  fix out S' p' pre lit post
  assume "ObfuscateStrings rnd pick sf gb p Secrets input = Inr (out, S', p')"
    and a: "bodyOf input = pre @ lit @ post
            \<and> (\<forall>k \<in> fst ` set S'. \<not> sublist k lit)
            \<and> (pre = [] \<or> (\<forall>k \<in> fst ` set S'. last pre \<notin> set k))
            \<and> (post = [] \<or> (\<forall>k \<in> fst ` set S'. hd post \<notin> set k))"
  from a have "\<forall>k \<in> fst ` set (rearrange pick S'). \<not> sublist k lit"
    and "pre = [] \<or> (\<forall>k \<in> fst ` set (rearrange pick S'). last pre \<notin> set k)"
    and "post = [] \<or> (\<forall>k \<in> fst ` set (rearrange pick S'). hd post \<notin> set k)"
    by (simp_all add: rearrange_set)
  from replaceKeys_frame[OF this] a
  show "replaceKeys (rearrange pick S') (bodyOf input)
              = replaceKeys (rearrange pick S') pre @ lit @ replaceKeys (rearrange pick S') post"
    by simp
qed

lemma ex2_body:
  "bodyOf (''import ()'' @ [dquote] @ ''don'' @ [squote] @ ''t won'' @ [squote] @ ''t'' @ [bslash] @ ''n'' @ [dquote])
     = [dquote] @ ''don'' @ [squote] @ ''t won'' @ [squote] @ ''t'' @ [bslash] @ ''n'' @ [dquote]"
  by (simp add: string_eval)

lemma ex2_split:
  "take (splitPoint (''import ()'' @ [dquote] @ ''don'' @ [squote] @ ''t won'' @ [squote] @ ''t'' @ [bslash] @ ''n'' @ [dquote]))
     (''import ()'' @ [dquote] @ ''don'' @ [squote] @ ''t won'' @ [squote] @ ''t'' @ [bslash] @ ''n'' @ [dquote]) = ''import ()''"
  by (simp add: string_eval)

lemma ex2_discover:
  "discover rnd 0 [] ([dquote] @ ''don'' @ [squote] @ ''t won'' @ [squote] @ ''t'' @ [bslash] @ ''n'' @ [dquote]) tickTypes
     = ([([squote] @ ''t won'' @ [squote], [''t won'', typosquat rnd 0])], 128)"
  by (simp add: string_eval)

lemma ex2_replace:
  "ReplaceAll ([dquote] @ ''don'' @ [squote] @ ''t won'' @ [squote] @ ''t'' @ [bslash] @ ''n'' @ [dquote]) ([squote] @ ''t won'' @ [squote]) new
     = [dquote] @ ''don'' @ new @ ''t'' @ [bslash] @ ''n'' @ [dquote]"
  by (simp add: dquote_def squote_def bslash_def)

lemma ex2_run:
  "ObfuscateStrings rnd [0] sf gb 0 [] (''import ()'' @ [dquote] @ ''don'' @ [squote] @ ''t won'' @ [squote] @ ''t'' @ [bslash] @ ''n'' @ [dquote])
     = Inr (''import ()'' @ [dquote] @ ''don'' @ typosquat rnd 0 @ ''()'' @ ''t'' @ [bslash] @ ''n'' @ [dquote] @ [nl]
              @ GenerateStringFunc sf gb ''t won'' (typosquat rnd 0) @ [nl],
            [([squote] @ ''t won'' @ [squote], [''t won'', typosquat rnd 0])], 128)"
proof -
  have c: "Contains (''import ()'' @ [dquote] @ ''don'' @ [squote] @ ''t won'' @ [squote] @ ''t'' @ [bslash] @ ''n'' @ [dquote]) ''import (''"
    by (simp add: Contains_def)
  have w: "\<forall>(k, w) \<in> set ([] :: secrets). 2 \<le> length w" by simp
  show ?thesis
    unfolding ObfuscateStrings_returns[OF c w] ex2_body ex2_split ex2_discover fst_conv snd_conv
      rearrange_single
    by (simp add: replaceKeys_def replacement_typosquat accessorFuncs_typosquat ex2_replace[simplified])
qed

lemma Sprintf_from_Cons: "c \<noteq> CHR ''%'' \<Longrightarrow> Sprintf_from used (c # s) a = c # Sprintf_from used s a"
  by (cases s) auto

lemma Sprintf_from_skip: "CHR ''%'' \<notin> set t \<Longrightarrow> Sprintf_from used (t @ s) a = t @ Sprintf_from used s a"
proof (induction t)
  case Nil
  show ?case by simp
next
  case (Cons c t)
  then have "c \<noteq> CHR ''%''" by auto
  with Cons show ?case by (simp add: Sprintf_from_Cons)
qed

text \<open>
  With the example \<open>Sprintf_s\<close>, and for a name without a percent sign, the accessor
  function is the text of the format with the lines in place of its verb.
\<close>

lemma GenerateStringFunc_plain:
  assumes "CHR ''%'' \<notin> set function"
  shows "GenerateStringFunc Sprintf_s gb txt function =
     ''func '' @ function @ ''() string { EAX := uint8(obUnsafe.Sizeof(true));''
       @ ''return string('' @ [nl] @ ''[]byte{'' @ [nl]
       @ Join (map gb txt) ('','' @ [nl])
       @ '','' @ [nl] @ ''},'' @ [nl] @ '')}''"
proof -
  have "Sprintf_from False (''func '' @ function @ s) a = ''func '' @ function @ Sprintf_from False s a" for s a
    using Sprintf_from_skip[of "''func '' @ function" False s a] assms by simp
  then show ?thesis
    unfolding GenerateStringFunc_def Sprintf_s_def
    by (simp add: nl_def Sprintf_from_Cons)
qed

lemma percent_not_in_name: "CHR ''%'' \<notin> set (typosquat rnd p)"
  using typosquat_char[of "CHR ''%''" rnd p] by auto

lemma squote_not_in_name: "squote \<notin> set (typosquat rnd p)"
  using typosquat_char[of squote rnd p] by (auto simp: squote_def)


lemma ex6_body:
  "bodyOf (''import ()'' @ [dquote, bslash] @ ''tdon'' @ [squote] @ ''t'' @ [dquote] @ '' '' @ [squote]) = ([dquote, bslash] @ ''tdon'' @ [squote] @ ''t'' @ [dquote] @ '' '' @ [squote])"
  by (simp add: string_eval)

lemma ex6_split:
  "take (splitPoint (''import ()'' @ [dquote, bslash] @ ''tdon'' @ [squote] @ ''t'' @ [dquote] @ '' '' @ [squote])) (''import ()'' @ [dquote, bslash] @ ''tdon'' @ [squote] @ ''t'' @ [dquote] @ '' '' @ [squote]) = ''import ()''"
  by (simp add: string_eval)

lemma ex6_discover:
  "discover rnd 0 [] ([dquote, bslash] @ ''tdon'' @ [squote] @ ''t'' @ [dquote] @ '' '' @ [squote]) tickTypes
     = ([(([squote] @ ''t'' @ [dquote] @ '' '' @ [squote]), [(''t'' @ [dquote] @ '' ''), typosquat rnd 0])], 128)"
  by (simp add: string_eval)

lemma ex6_replace:
  "ReplaceAll ([dquote, bslash] @ ''tdon'' @ [squote] @ ''t'' @ [dquote] @ '' '' @ [squote]) ([squote] @ ''t'' @ [dquote] @ '' '' @ [squote]) new
     = [dquote, bslash] @ ''tdon'' @ new"
  by (simp add: dquote_def squote_def bslash_def)

lemma ex6_run:
  "ObfuscateStrings rnd [0] sf gb 0 [] (''import ()'' @ [dquote, bslash] @ ''tdon'' @ [squote] @ ''t'' @ [dquote] @ '' '' @ [squote])
     = Inr (''import ()'' @ [dquote, bslash] @ ''tdon'' @ typosquat rnd 0 @ ''()'' @ [nl]
              @ GenerateStringFunc sf gb (''t'' @ [dquote] @ '' '') (typosquat rnd 0) @ [nl],
            [(([squote] @ ''t'' @ [dquote] @ '' '' @ [squote]), [(''t'' @ [dquote] @ '' ''), typosquat rnd 0])], 128)"
proof -
  have c: "Contains (''import ()'' @ [dquote, bslash] @ ''tdon'' @ [squote] @ ''t'' @ [dquote] @ '' '' @ [squote]) ''import (''"
    by (simp add: Contains_def)
  have w: "\<forall>(k, w) \<in> set ([] :: secrets). 2 \<le> length w" by simp
  show ?thesis
    unfolding ObfuscateStrings_returns[OF c w] ex6_body ex6_split ex6_discover fst_conv snd_conv
      rearrange_single
    by (simp add: replaceKeys_def replacement_typosquat accessorFuncs_typosquat ex6_replace[simplified])
qed

text \<open>
  Against claim C9 as stated, two runs. In the first the literal in double quotes holds a
  backslash and is skipped, but the two apostrophes inside it delimit a literal that is
  registered and replaced. In the second no key of the map occurs inside the skipped
  literal, but the literal that begins at its apostrophe ends after it and is registered
  and replaced, which takes the end of the skipped literal away. In neither run is the
  skipped literal in the output as it was.
\<close>

theorem skipped_literals_counterexample:
  "ObfuscateStrings (\<lambda>_. 0) [0] Sprintf_s (\<lambda>_. ''B'') 0 [] (''import ()'' @ [dquote] @ ''don'' @ [squote] @ ''t won'' @ [squote] @ ''t'' @ [bslash] @ ''n'' @ [dquote])
     = Inr ((''import ()'' @ [dquote] @ ''don'' @ typosquat (\<lambda>_. 0) 0 @ ''()'' @ ''t'' @ [bslash] @ ''n'' @ [dquote] @ [nl]
              @ GenerateStringFunc Sprintf_s (\<lambda>_. ''B'') ''t won'' (typosquat (\<lambda>_. 0) 0) @ [nl]),
            [([squote] @ ''t won'' @ [squote], [''t won'', typosquat (\<lambda>_. 0) 0])], 128)
   \<and> FindAllString_tick dquote (bodyOf (''import ()'' @ [dquote] @ ''don'' @ [squote] @ ''t won'' @ [squote] @ ''t'' @ [bslash] @ ''n'' @ [dquote]))
       = [([dquote] @ ''don'' @ [squote] @ ''t won'' @ [squote] @ ''t'' @ [bslash] @ ''n'' @ [dquote])]
   \<and> \<not> registrable ([dquote] @ ''don'' @ [squote] @ ''t won'' @ [squote] @ ''t'' @ [bslash] @ ''n'' @ [dquote])
   \<and> \<not> Contains (''import ()'' @ [dquote] @ ''don'' @ typosquat (\<lambda>_. 0) 0 @ ''()'' @ ''t'' @ [bslash] @ ''n'' @ [dquote] @ [nl]
              @ GenerateStringFunc Sprintf_s (\<lambda>_. ''B'') ''t won'' (typosquat (\<lambda>_. 0) 0) @ [nl])
          ([dquote] @ ''don'' @ [squote] @ ''t won'' @ [squote] @ ''t'' @ [bslash] @ ''n'' @ [dquote])
   \<and> ObfuscateStrings (\<lambda>_. 0) [0] Sprintf_s (\<lambda>_. ''B'') 0 [] (''import ()'' @ [dquote, bslash] @ ''tdon'' @ [squote] @ ''t'' @ [dquote] @ '' '' @ [squote])
     = Inr ((''import ()'' @ [dquote, bslash] @ ''tdon'' @ typosquat (\<lambda>_. 0) 0 @ ''()'' @ [nl]
              @ GenerateStringFunc Sprintf_s (\<lambda>_. ''B'') (''t'' @ [dquote] @ '' '') (typosquat (\<lambda>_. 0) 0) @ [nl]),
            [(([squote] @ ''t'' @ [dquote] @ '' '' @ [squote]), [(''t'' @ [dquote] @ '' ''), typosquat (\<lambda>_. 0) 0])], 128)
   \<and> FindAllString_tick dquote (bodyOf (''import ()'' @ [dquote, bslash] @ ''tdon'' @ [squote] @ ''t'' @ [dquote] @ '' '' @ [squote]))
       = [([dquote, bslash] @ ''tdon'' @ [squote] @ ''t'' @ [dquote])]
   \<and> \<not> registrable ([dquote, bslash] @ ''tdon'' @ [squote] @ ''t'' @ [dquote])
   \<and> \<not> Contains ([dquote, bslash] @ ''tdon'' @ [squote] @ ''t'' @ [dquote]) ([squote] @ ''t'' @ [dquote] @ '' '' @ [squote])
   \<and> \<not> Contains (''import ()'' @ [dquote, bslash] @ ''tdon'' @ typosquat (\<lambda>_. 0) 0 @ ''()'' @ [nl]
              @ GenerateStringFunc Sprintf_s (\<lambda>_. ''B'') (''t'' @ [dquote] @ '' '') (typosquat (\<lambda>_. 0) 0) @ [nl])
          ([dquote, bslash] @ ''tdon'' @ [squote] @ ''t'' @ [dquote])"
proof (intro conjI)
  let ?out = "(''import ()'' @ [dquote] @ ''don'' @ typosquat (\<lambda>_. 0) 0 @ ''()'' @ ''t'' @ [bslash] @ ''n'' @ [dquote] @ [nl]
              @ GenerateStringFunc Sprintf_s (\<lambda>_. ''B'') ''t won'' (typosquat (\<lambda>_. 0) 0) @ [nl])"
  let ?out2 = "(''import ()'' @ [dquote, bslash] @ ''tdon'' @ typosquat (\<lambda>_. 0) 0 @ ''()'' @ [nl]
              @ GenerateStringFunc Sprintf_s (\<lambda>_. ''B'') (''t'' @ [dquote] @ '' '') (typosquat (\<lambda>_. 0) 0) @ [nl])"
  show "ObfuscateStrings (\<lambda>_. 0) [0] Sprintf_s (\<lambda>_. ''B'') 0 [] (''import ()'' @ [dquote] @ ''don'' @ [squote] @ ''t won'' @ [squote] @ ''t'' @ [bslash] @ ''n'' @ [dquote])
     = Inr (?out, [([squote] @ ''t won'' @ [squote], [''t won'', typosquat (\<lambda>_. 0) 0])], 128)"
    by (rule ex2_run)
  show "FindAllString_tick dquote (bodyOf (''import ()'' @ [dquote] @ ''don'' @ [squote] @ ''t won'' @ [squote] @ ''t'' @ [bslash] @ ''n'' @ [dquote]))
       = [([dquote] @ ''don'' @ [squote] @ ''t won'' @ [squote] @ ''t'' @ [bslash] @ ''n'' @ [dquote])]"
    unfolding ex2_body by (simp add: string_eval)
  show "\<not> registrable ([dquote] @ ''don'' @ [squote] @ ''t won'' @ [squote] @ ''t'' @ [bslash] @ ''n'' @ [dquote])"
    by (simp add: registrable_def Contains_char)
  show "\<not> Contains ?out ([dquote] @ ''don'' @ [squote] @ ''t won'' @ [squote] @ ''t'' @ [bslash] @ ''n'' @ [dquote])"
  proof
    assume "Contains ?out ([dquote] @ ''don'' @ [squote] @ ''t won'' @ [squote] @ ''t'' @ [bslash] @ ''n'' @ [dquote])"
    then have "set ([dquote] @ ''don'' @ [squote] @ ''t won'' @ [squote] @ ''t'' @ [bslash] @ ''n'' @ [dquote]) \<subseteq> set ?out"
      unfolding Contains_sublist by (rule sublist_set)
    then have "squote \<in> set ?out"
      by simp
    then show False
      using squote_not_in_name[of "\<lambda>_. 0" 0]
      by (simp add: GenerateStringFunc_plain[OF percent_not_in_name] squote_def dquote_def bslash_def nl_def)
  qed
  show "ObfuscateStrings (\<lambda>_. 0) [0] Sprintf_s (\<lambda>_. ''B'') 0 [] (''import ()'' @ [dquote, bslash] @ ''tdon'' @ [squote] @ ''t'' @ [dquote] @ '' '' @ [squote])
     = Inr (?out2, [(([squote] @ ''t'' @ [dquote] @ '' '' @ [squote]), [(''t'' @ [dquote] @ '' ''), typosquat (\<lambda>_. 0) 0])], 128)"
    by (rule ex6_run)
  show "FindAllString_tick dquote (bodyOf (''import ()'' @ [dquote, bslash] @ ''tdon'' @ [squote] @ ''t'' @ [dquote] @ '' '' @ [squote]))
       = [([dquote, bslash] @ ''tdon'' @ [squote] @ ''t'' @ [dquote])]"
    unfolding ex6_body by (simp add: string_eval)
  show "\<not> registrable ([dquote, bslash] @ ''tdon'' @ [squote] @ ''t'' @ [dquote])"
    by (simp add: registrable_def Contains_char)
  show "\<not> Contains ([dquote, bslash] @ ''tdon'' @ [squote] @ ''t'' @ [dquote]) ([squote] @ ''t'' @ [dquote] @ '' '' @ [squote])"
    by (simp add: Contains_def dquote_def squote_def bslash_def)
  show "\<not> Contains ?out2 ([dquote, bslash] @ ''tdon'' @ [squote] @ ''t'' @ [dquote])"
  proof
    assume "Contains ?out2 ([dquote, bslash] @ ''tdon'' @ [squote] @ ''t'' @ [dquote])"
    then have "set ([dquote, bslash] @ ''tdon'' @ [squote] @ ''t'' @ [dquote]) \<subseteq> set ?out2"
      unfolding Contains_sublist by (rule sublist_set)
    then have "squote \<in> set ?out2"
      by simp
    then show False
      using squote_not_in_name[of "\<lambda>_. 0" 0]
      by (simp add: GenerateStringFunc_plain[OF percent_not_in_name] squote_def dquote_def bslash_def nl_def)
  qed
qed

lemma ex7_body:
  "bodyOf (''import ()Printf('' @ [dquote] @ ''%s'' @ [bslash] @ ''n'' @ [dquote] @ '', '' @ [dquote] @ ''secret'' @ [dquote] @ '')'') = (''Printf('' @ [dquote] @ ''%s'' @ [bslash] @ ''n'' @ [dquote] @ '', '' @ [dquote] @ ''secret'' @ [dquote] @ '')'')"
  by (simp add: string_eval)

lemma ex7_split:
  "take (splitPoint (''import ()Printf('' @ [dquote] @ ''%s'' @ [bslash] @ ''n'' @ [dquote] @ '', '' @ [dquote] @ ''secret'' @ [dquote] @ '')'')) (''import ()Printf('' @ [dquote] @ ''%s'' @ [bslash] @ ''n'' @ [dquote] @ '', '' @ [dquote] @ ''secret'' @ [dquote] @ '')'') = ''import ()''"
  by (simp add: string_eval)

lemma ex7_discover:
  "discover rnd 0 [] (''Printf('' @ [dquote] @ ''%s'' @ [bslash] @ ''n'' @ [dquote] @ '', '' @ [dquote] @ ''secret'' @ [dquote] @ '')'') tickTypes
     = ([(([dquote] @ ''secret'' @ [dquote]), [''secret'', typosquat rnd 0])], 128)"
  by (simp add: string_eval)

lemma ex7_tokens:
  "FindAllString_tick dquote (''Printf('' @ [dquote] @ ''%s'' @ [bslash] @ ''n'' @ [dquote] @ '', '' @ [dquote] @ ''secret'' @ [dquote] @ '')'') = [([dquote] @ ''%s'' @ [bslash] @ ''n'' @ [dquote]), ([dquote] @ ''secret'' @ [dquote])]"
  by (simp add: string_eval)

lemma ex7_before: "ReplaceAll ''Printf('' ([dquote] @ ''secret'' @ [dquote]) new = ''Printf(''"
  by (simp add: dquote_def)

lemma ex7_after:
  "ReplaceAll ('', '' @ [dquote] @ ''secret'' @ [dquote] @ '')'') ([dquote] @ ''secret'' @ [dquote]) new = '', '' @ new @ '')''"
  by (simp add: dquote_def)

lemma ex7_untouched:
  "untouched [(([dquote] @ ''secret'' @ [dquote]), [''secret'', n])] ''Printf(''
     ([dquote] @ ''%s'' @ [bslash] @ ''n'' @ [dquote]) ('', '' @ [dquote] @ ''secret'' @ [dquote] @ '')'')"
  by (simp add: overlapFree_def dquote_def bslash_def upt_rec)

theorem skipped_literals_witness:
  "ObfuscateStrings (\<lambda>_. 0) [0] Sprintf_s (\<lambda>_. ''B'') 0 [] (''import ()Printf('' @ [dquote] @ ''%s'' @ [bslash] @ ''n'' @ [dquote] @ '', '' @ [dquote] @ ''secret'' @ [dquote] @ '')'')
     = Inr ((''import ()Printf('' @ [dquote] @ ''%s'' @ [bslash] @ ''n'' @ [dquote] @ '', '' @ typosquat (\<lambda>_. 0) 0 @ ''()'' @ '')'' @ [nl]
              @ GenerateStringFunc Sprintf_s (\<lambda>_. ''B'') ''secret'' (typosquat (\<lambda>_. 0) 0) @ [nl]),
            [(([dquote] @ ''secret'' @ [dquote]), [''secret'', typosquat (\<lambda>_. 0) 0])], 128)
   \<and> FindAllString_tick dquote (bodyOf (''import ()Printf('' @ [dquote] @ ''%s'' @ [bslash] @ ''n'' @ [dquote] @ '', '' @ [dquote] @ ''secret'' @ [dquote] @ '')'')) = [([dquote] @ ''%s'' @ [bslash] @ ''n'' @ [dquote]), ([dquote] @ ''secret'' @ [dquote])]
   \<and> \<not> registrable ([dquote] @ ''%s'' @ [bslash] @ ''n'' @ [dquote])
   \<and> untouched [(([dquote] @ ''secret'' @ [dquote]), [''secret'', typosquat (\<lambda>_. 0) 0])] ''Printf('' ([dquote] @ ''%s'' @ [bslash] @ ''n'' @ [dquote]) ('', '' @ [dquote] @ ''secret'' @ [dquote] @ '')'')"
proof -
  let ?input = "(''import ()Printf('' @ [dquote] @ ''%s'' @ [bslash] @ ''n'' @ [dquote] @ '', '' @ [dquote] @ ''secret'' @ [dquote] @ '')'')"
  let ?S = "[(([dquote] @ ''secret'' @ [dquote]), [''secret'', typosquat (\<lambda>_. 0) 0])]"
  have h1: "Contains ?input ''import (''" and h2: "\<forall>(k, w) \<in> set ([] :: secrets). 2 \<le> length w"
    and h3: "\<not> registrable ([dquote] @ ''%s'' @ [bslash] @ ''n'' @ [dquote])"
    by (simp_all add: Contains_def registrable_def Contains_char)
  note t = skipped_literals[of ?input "[]" "\<lambda>_. 0" "[0]" Sprintf_s "\<lambda>_. ''B''" 0]
  from t[THEN conjunct1] h1 h2 obtain out S' p' where
    run: "ObfuscateStrings (\<lambda>_. 0) [0] Sprintf_s (\<lambda>_. ''B'') 0 [] ?input = Inr (out, S', p')"
    by auto
  from ObfuscateStrings_result(2)[OF run] have s: "S' = ?S" "p' = 128"
    unfolding ex7_body ex7_discover by simp_all
  note r = t[THEN conjunct2, rule_format, OF run]
  note o = r[THEN conjunct2, THEN conjunct1]
  note dyn = r[THEN conjunct2, THEN conjunct2, THEN conjunct1, rule_format]
  note stat = r[THEN conjunct2, THEN conjunct2, THEN conjunct2, rule_format]
  have u: "untouched ?S ''Printf('' ([dquote] @ ''%s'' @ [bslash] @ ''n'' @ [dquote]) ('', '' @ [dquote] @ ''secret'' @ [dquote] @ '')'')"
    by (rule ex7_untouched)
  have n: "\<not> sublist ([dquote] @ ''secret'' @ [dquote]) ([dquote] @ ''%s'' @ [bslash] @ ''n'' @ [dquote])"
    by (simp add: Contains_sublist[symmetric] Contains_def dquote_def bslash_def)
  have f: "bodyOf ?input = ''Printf('' @ ([dquote] @ ''%s'' @ [bslash] @ ''n'' @ [dquote]) @ ('', '' @ [dquote] @ ''secret'' @ [dquote] @ '')'')
            \<and> (\<forall>k \<in> fst ` set S'. \<not> sublist k ([dquote] @ ''%s'' @ [bslash] @ ''n'' @ [dquote]))
            \<and> (''Printf('' = [] \<or> (\<forall>k \<in> fst ` set S'. last ''Printf('' \<notin> set k))
            \<and> (('', '' @ [dquote] @ ''secret'' @ [dquote] @ '')'') = [] \<or> (\<forall>k \<in> fst ` set S'. hd ('', '' @ [dquote] @ ''secret'' @ [dquote] @ '')'') \<notin> set k))"
    unfolding s ex7_body using n by (simp add: dquote_def)
  have "replaceKeys (rearrange [0] S') (bodyOf ?input)
      = replaceKeys (rearrange [0] S') ''Printf('' @ ([dquote] @ ''%s'' @ [bslash] @ ''n'' @ [dquote]) @ replaceKeys (rearrange [0] S') ('', '' @ [dquote] @ ''secret'' @ [dquote] @ '')'')"
    by (rule stat[OF f])
  then have b: "replaceKeys (rearrange [0] S') (bodyOf ?input)
      = ''Printf('' @ ([dquote] @ ''%s'' @ [bslash] @ ''n'' @ [dquote]) @ '', '' @ typosquat (\<lambda>_. 0) 0 @ ''()'' @ '')''"
    unfolding s rearrange_single replaceKeys_Cons replacement_typosquat ex7_before ex7_after
    by (simp add: replaceKeys_def)
  have g: "bodyOf ?input = ''Printf('' @ ([dquote] @ ''%s'' @ [bslash] @ ''n'' @ [dquote]) @ ('', '' @ [dquote] @ ''secret'' @ [dquote] @ '')'')
            \<and> untouched (rearrange [0] S') ''Printf('' ([dquote] @ ''%s'' @ [bslash] @ ''n'' @ [dquote]) ('', '' @ [dquote] @ ''secret'' @ [dquote] @ '')'')"
    unfolding s rearrange_single ex7_body using u by simp
  have "replaceKeys (rearrange [0] S') (bodyOf ?input)
      = replaceKeys (rearrange [0] S') ''Printf('' @ ([dquote] @ ''%s'' @ [bslash] @ ''n'' @ [dquote]) @ replaceKeys (rearrange [0] S') ('', '' @ [dquote] @ ''secret'' @ [dquote] @ '')'')"
    by (rule dyn[OF g])
  have "out = (''import ()Printf('' @ [dquote] @ ''%s'' @ [bslash] @ ''n'' @ [dquote] @ '', '' @ typosquat (\<lambda>_. 0) 0 @ ''()'' @ '')'' @ [nl]
              @ GenerateStringFunc Sprintf_s (\<lambda>_. ''B'') ''secret'' (typosquat (\<lambda>_. 0) 0) @ [nl])"
    unfolding o b ex7_split unfolding s rearrange_single accessorFuncs_typosquat by simp
  with run s h3 u ex7_tokens show ?thesis
    unfolding ex7_body by simp
qed


section \<open>The literals that are found\<close>

lemma FindAllString_tick_shape:
  "w \<in> set (FindAllString_tick v body) \<Longrightarrow>
   \<exists>m. w = v # m @ [v] \<and> v \<notin> set m \<and> nl \<notin> set m \<and> sublist w body"
proof (induction v body rule: FindAllString_tick.induct)
  case (1 v)
  then show ?case by simp
next
  case (2 v c cs)
  let ?P = "\<lambda>x. x \<noteq> v \<and> x \<noteq> nl"
  show ?case
  proof (cases "c = v")
    case False
    with "2.prems" have "w \<in> set (FindAllString_tick v cs)" by simp
    from "2.IH"(4)[OF False this] show ?thesis
      by (auto simp: sublist_Cons_right)
  next
    case True
    show ?thesis
    proof (cases "dropWhile ?P cs")
      case Nil
      with True "2.prems" have "w \<in> set (FindAllString_tick v cs)" by simp
      from "2.IH"(1)[OF True Nil this] show ?thesis
        by (auto simp: sublist_Cons_right)
    next
      case (Cons d rest)
      show ?thesis
      proof (cases "d = v")
        case False
        with True Cons "2.prems" have "w \<in> set (FindAllString_tick v cs)" by simp
        from "2.IH"(3)[OF True Cons False this] show ?thesis
          by (auto simp: sublist_Cons_right)
      next
        case dv: True
        let ?m = "takeWhile ?P cs"
        have cs: "cs = ?m @ v # rest"
          using takeWhile_dropWhile_id[of ?P cs] Cons dv by simp
        from True Cons dv "2.prems"
        have "w = v # ?m @ [v] \<or> w \<in> set (FindAllString_tick v rest)" by simp
        then show ?thesis
        proof
          assume w: "w = v # ?m @ [v]"
          have "v \<notin> set ?m" and "nl \<notin> set ?m"
            by (auto dest: set_takeWhileD)
          moreover have "c # cs = (v # ?m @ [v]) @ rest"
            using cs True by simp
          then have "sublist (v # ?m @ [v]) (c # cs)"
            by (metis prefixI prefix_imp_sublist)
          ultimately show ?thesis using w by blast
        next
          assume "w \<in> set (FindAllString_tick v rest)"
          from "2.IH"(2)[OF True Cons dv this] obtain m where
            m: "w = v # m @ [v]" "v \<notin> set m" "nl \<notin> set m" "sublist w rest"
            by blast
          have "suffix rest (c # cs)"
            by (subst cs) (simp add: suffix_def)
          with m(4) have "sublist w (c # cs)"
            by (meson sublist_order.order_trans suffix_imp_sublist)
          with m show ?thesis by blast
        qed
      qed
    qed
  qed
qed

lemma FindAllString_tick_skip:
  "v \<notin> set pre \<Longrightarrow> FindAllString_tick v (pre @ s) = FindAllString_tick v s"
  by (induction pre) auto

lemma FindAllString_tick_match:
  assumes "v \<notin> set m" and "nl \<notin> set m"
  shows "FindAllString_tick v (v # m @ v # post) = (v # m @ [v]) # FindAllString_tick v post"
proof -
  let ?P = "\<lambda>x. x \<noteq> v \<and> x \<noteq> nl"
  from assms have all: "\<forall>x \<in> set m. ?P x" by auto
  then have d: "dropWhile ?P (m @ v # post) = v # post"
    by (simp add: dropWhile_append3)
  from all have t: "takeWhile ?P (m @ v # post) = m"
    by (simp add: takeWhile_tail)
  show ?thesis
    by (simp add: d t)
qed

lemma FindAllString_tick_newline:
  assumes "v \<noteq> nl" and "v \<notin> set m" and "nl \<in> set m"
  shows "FindAllString_tick v (v # m @ v # post) = FindAllString_tick v (v # post)"
proof -
  let ?P = "\<lambda>x. x \<noteq> v \<and> x \<noteq> nl"
  from assms(3) obtain m1 m2 where m: "m = m1 @ nl # m2" "nl \<notin> set m1"
    by (meson split_list_first)
  with assms(2) have "\<forall>x \<in> set m1. ?P x" by auto
  then have "dropWhile ?P (m1 @ nl # m2 @ v # post) = nl # m2 @ v # post"
    by (simp add: dropWhile_append3)
  then have "FindAllString_tick v (v # m @ v # post) = FindAllString_tick v (m @ v # post)"
    using assms(1) m(1) by simp
  also have "\<dots> = FindAllString_tick v (v # post)"
    using assms(2) by (rule FindAllString_tick_skip)
  finally show ?thesis .
qed

text \<open>
  Claim C6, as the code has it. Every word found for a delimiter is a piece of the body
  that starts and ends with the delimiter and holds neither the delimiter nor a newline in
  between. Where the first delimiter of the text opens such a piece, the piece is found and
  the search goes on behind it; where a newline comes before the next delimiter, nothing is
  found at that delimiter and the search goes on with the next one. Every word found for
  one of the three delimiters that the inner loop accepts is in the map afterwards.
\<close>

theorem FindAllString_tick_literals:
  "(\<forall>w \<in> set (FindAllString_tick v body).
       \<exists>m. w = v # m @ [v] \<and> v \<notin> set m \<and> nl \<notin> set m \<and> sublist w body)
   \<and> (v \<notin> set pre \<and> v \<notin> set m \<and> nl \<notin> set m \<longrightarrow>
        FindAllString_tick v (pre @ v # m @ v # post) = (v # m @ [v]) # FindAllString_tick v post)
   \<and> (v \<noteq> nl \<and> v \<notin> set pre \<and> v \<notin> set m \<and> nl \<in> set m \<longrightarrow>
        FindAllString_tick v (pre @ v # m @ v # post) = FindAllString_tick v (v # post))
   \<and> (u \<in> set tickTypes \<and> w \<in> set (FindAllString_tick u body) \<and> registrable w \<longrightarrow>
        map_of (fst (discover rnd p S body tickTypes)) w \<noteq> None)"
proof (intro conjI impI ballI)
  fix w assume "w \<in> set (FindAllString_tick v body)"
  then show "\<exists>m. w = v # m @ [v] \<and> v \<notin> set m \<and> nl \<notin> set m \<and> sublist w body"
    by (rule FindAllString_tick_shape)
next
  assume a: "v \<notin> set pre \<and> v \<notin> set m \<and> nl \<notin> set m"
  then have a1: "v \<notin> set pre" and a2: "v \<notin> set m" and a3: "nl \<notin> set m"
    by simp_all
  show "FindAllString_tick v (pre @ v # m @ v # post) = (v # m @ [v]) # FindAllString_tick v post"
    unfolding FindAllString_tick_skip[OF a1] by (rule FindAllString_tick_match[OF a2 a3])
next
  assume a: "v \<noteq> nl \<and> v \<notin> set pre \<and> v \<notin> set m \<and> nl \<in> set m"
  then have a0: "v \<noteq> nl" and a1: "v \<notin> set pre" and a2: "v \<notin> set m" and a3: "nl \<in> set m"
    by simp_all
  show "FindAllString_tick v (pre @ v # m @ v # post) = FindAllString_tick v (v # post)"
    unfolding FindAllString_tick_skip[OF a1] by (rule FindAllString_tick_newline[OF a0 a2 a3])
next
  assume "u \<in> set tickTypes \<and> w \<in> set (FindAllString_tick u body) \<and> registrable w"
  then show "map_of (fst (discover rnd p S body tickTypes)) w \<noteq> None"
    using discover_covers by blast
qed

text \<open>
  Against claim C6 as stated: a literal in backticks that holds a newline is not found, and
  the function leaves the map empty and the body as it was.
\<close>

theorem FindAllString_tick_literals_counterexample:
  "FindAllString_tick backtick ([backtick] @ ''a'' @ [nl] @ ''b'' @ [backtick]) = []
   \<and> ObfuscateStrings (\<lambda>_. 0) [] Sprintf_s (\<lambda>_. ''B'') 0 [] (''import ()'' @ [backtick] @ ''a'' @ [nl] @ ''b'' @ [backtick])
       = Inr (''import ()'' @ [backtick] @ ''a'' @ [nl] @ ''b'' @ [backtick] @ [nl], [], 0)"
proof
  show "FindAllString_tick backtick ([backtick] @ ''a'' @ [nl] @ ''b'' @ [backtick]) = []"
    by (simp add: string_eval)
next
  let ?input = "''import ()'' @ [backtick] @ ''a'' @ [nl] @ ''b'' @ [backtick]"
  have c: "Contains ?input ''import (''"
    by (simp add: Contains_def)
  have w: "\<forall>(k, w) \<in> set ([] :: secrets). 2 \<le> length w" by simp
  have b: "bodyOf ?input = [backtick] @ ''a'' @ [nl] @ ''b'' @ [backtick]"
    and t: "take (splitPoint ?input) ?input = ''import ()''"
    by (simp_all add: string_eval)
  have d: "discover (\<lambda>_. 0) 0 [] ([backtick] @ ''a'' @ [nl] @ ''b'' @ [backtick]) tickTypes = ([], 0)"
    by (simp add: string_eval)
  show "ObfuscateStrings (\<lambda>_. 0) [] Sprintf_s (\<lambda>_. ''B'') 0 [] ?input
       = Inr (''import ()'' @ [backtick] @ ''a'' @ [nl] @ ''b'' @ [backtick] @ [nl], [], 0)"
    unfolding ObfuscateStrings_returns[OF c w] b t d fst_conv snd_conv
    by (simp add: rearrange_def replaceKeys_def accessorFuncs_def)
qed

theorem FindAllString_tick_literals_witness:
  "dquote \<notin> set ''x = '' \<and> dquote \<notin> set ''ab'' \<and> nl \<notin> set ''ab''
   \<and> FindAllString_tick dquote (''x = '' @ dquote # ''ab'' @ dquote # '';'')
       = (dquote # ''ab'' @ [dquote]) # FindAllString_tick dquote '';''
   \<and> dquote \<in> set tickTypes
   \<and> dquote # ''ab'' @ [dquote] \<in> set (FindAllString_tick dquote (''x = '' @ dquote # ''ab'' @ dquote # '';''))
   \<and> registrable (dquote # ''ab'' @ [dquote])
   \<and> map_of (fst (discover (\<lambda>_. 0) 0 [] (''x = '' @ dquote # ''ab'' @ dquote # '';'') tickTypes))
        (dquote # ''ab'' @ [dquote]) \<noteq> None"
proof -
  have h: "dquote \<notin> set ''x = '' \<and> dquote \<notin> set ''ab'' \<and> nl \<notin> set ''ab''"
    by (simp add: dquote_def nl_def)
  note t = FindAllString_tick_literals[of dquote "''x = '' @ dquote # ''ab'' @ dquote # '';''"
      "''x = ''" "''ab''" "'';''" dquote "dquote # ''ab'' @ [dquote]" "\<lambda>_. 0" 0 "[]"]
  from t h have e: "FindAllString_tick dquote (''x = '' @ dquote # ''ab'' @ dquote # '';'')
       = (dquote # ''ab'' @ [dquote]) # FindAllString_tick dquote '';''"
    by blast
  have g: "dquote \<in> set tickTypes \<and> dquote # ''ab'' @ [dquote] \<in> set (FindAllString_tick dquote (''x = '' @ dquote # ''ab'' @ dquote # '';''))
      \<and> registrable (dquote # ''ab'' @ [dquote])"
    unfolding e by (simp add: tickTypes_def registrable_def Contains_char dquote_def bslash_def)
  with t have "map_of (fst (discover (\<lambda>_. 0) 0 [] (''x = '' @ dquote # ''ab'' @ dquote # '';'') tickTypes))
        (dquote # ''ab'' @ [dquote]) \<noteq> None"
    by blast
  with h e g show ?thesis by blast
qed


section \<open>What is left of the registered literals\<close>

lemma replaceKeys_keeps_absent:
  "tokenSafe R t \<Longrightarrow> \<forall>(k, w) \<in> set es. k \<noteq> [] \<and> replacement w \<in> R \<Longrightarrow> \<not> sublist t body \<Longrightarrow>
   \<not> sublist t (replaceKeys es body)"
proof (induction es arbitrary: body)
  case Nil
  then show ?case by (simp add: replaceKeys_def)
next
  case (Cons e es)
  obtain k w where e: "e = (k, w)" by (cases e)
  from Cons.prems(1) obtain v m where
    t: "t = v # m @ [v]" "v \<notin> set m" "\<forall>r \<in> R. v \<notin> set r \<and> \<not> sublist r m"
    unfolding tokenSafe_def by blast
  from Cons.prems(2) e have k: "k \<noteq> []" and r: "replacement w \<in> R" by auto
  from t(3) r have "v \<notin> set (replacement w)" and "\<not> sublist (replacement w) m" by blast+
  from sublist_ReplaceAll_token[OF k this(1) t(2) this(2), of body] Cons.prems(3)
  have a: "\<not> sublist t (ReplaceAll body k (replacement w))"
    unfolding t(1) by blast
  from Cons.prems(2) have b: "\<forall>(k, w) \<in> set es. k \<noteq> [] \<and> replacement w \<in> R" by simp
  show ?case
    unfolding e replaceKeys_Cons by (rule Cons.IH[OF Cons.prems(1) b a])
qed

lemma replaceKeys_removes:
  "\<forall>(k, w) \<in> set es. tokenSafe R k \<and> replacement w \<in> R \<Longrightarrow> (k, w) \<in> set es \<Longrightarrow>
   \<not> sublist k (replaceKeys es body)"
proof (induction es arbitrary: body)
  case Nil
  then show ?case by simp
next
  case (Cons e es)
  obtain k' w' where e: "e = (k', w')" by (cases e)
  from Cons.prems(1) have rest: "\<forall>(k, w) \<in> set es. tokenSafe R k \<and> replacement w \<in> R"
    by simp
  have nonempty: "\<forall>(k, w) \<in> set es. k \<noteq> [] \<and> replacement w \<in> R"
    using rest by (auto simp: tokenSafe_def)
  from Cons.prems(2) e have "(k, w) = (k', w') \<or> (k, w) \<in> set es" by auto
  then show ?case
  proof
    assume "(k, w) = (k', w')"
    then have kw: "k' = k" "w' = w" by simp_all
    from Cons.prems(1) e kw have safe: "tokenSafe R k" and r: "replacement w \<in> R" by auto
    from safe obtain v m where
      t: "k = v # m @ [v]" "v \<notin> set m" "\<forall>r \<in> R. v \<notin> set r \<and> \<not> sublist r m"
      unfolding tokenSafe_def by blast
    from t(3) r have "v \<notin> set (replacement w)" and "\<not> sublist (replacement w) m" by blast+
    from ReplaceAll_removes_token[OF t(1) this(1) t(2) this(2)]
    have "\<not> sublist k (ReplaceAll body k (replacement w))" .
    from replaceKeys_keeps_absent[OF safe nonempty this] show ?thesis
      unfolding e kw replaceKeys_Cons .
  next
    assume "(k, w) \<in> set es"
    from Cons.IH[OF rest this] show ?thesis
      unfolding e replaceKeys_Cons .
  qed
qed

lemma tick_not_in_call:
  assumes "v \<in> set tickTypes"
  shows "v \<notin> set (typosquat rnd q @ ''()'')"
proof
  assume "v \<in> set (typosquat rnd q @ ''()'')"
  then have "v \<in> set (typosquat rnd q) \<or> v = CHR ''('' \<or> v = CHR '')''" by auto
  with typosquat_char[of v rnd q] assms show False
    by (auto simp: tickTypes_def backtick_def squote_def dquote_def)
qed

lemma first_run_tokenSafe:
  assumes run: "ObfuscateStrings rnd pick sf gb p [] input = Inr (out, S', p')"
    and fresh: "\<forall>q. \<not> sublist (typosquat rnd q) (bodyOf input)"
  shows "\<forall>(k, w) \<in> set S'. tokenSafe (replacement ` snd ` set S') k"
proof -
  let ?body = "bodyOf input"
  note d = ObfuscateStrings_result(2)[OF run]
  have dist: "distinct (map fst S')"
    using discover_distinct[of "[]" rnd p ?body tickTypes] d by simp
  have entry: "registrable k \<and> (\<exists>v \<in> set tickTypes. k \<in> set (FindAllString_tick v ?body))
      \<and> (\<exists>q. w = [drop 1 (take (length k - 1) k), typosquat rnd q])" if "(k, w) \<in> set S'" for k w
  proof -
    from that dist have "map_of S' k = Some w" by simp
    then have "map_of (fst (discover rnd p [] ?body tickTypes)) k = Some w"
      by (simp add: d)
    from discover_fresh[OF _ this] show ?thesis by simp
  qed
  have repl: "\<exists>q. r = typosquat rnd q @ ''()''" if "r \<in> replacement ` snd ` set S'" for r
  proof -
    from that obtain k w where "(k, w) \<in> set S'" and r: "r = replacement w" by force
    from entry[OF this(1)] obtain q where "w = [drop 1 (take (length k - 1) k), typosquat rnd q]"
      by blast
    with r show ?thesis by (auto simp: replacement_typosquat)
  qed
  show ?thesis
  proof (clarify)
    fix k w assume kw: "(k, w) \<in> set S'"
    from entry[OF kw] obtain v where v: "v \<in> set tickTypes" "k \<in> set (FindAllString_tick v ?body)"
      by blast
    from FindAllString_tick_shape[OF v(2)] obtain m where
      m: "k = v # m @ [v]" "v \<notin> set m" "sublist k ?body" by blast
    have "v \<notin> set r \<and> \<not> sublist r m" if "r \<in> replacement ` snd ` set S'" for r
    proof
      from repl[OF that] obtain q where r: "r = typosquat rnd q @ ''()''" by blast
      show "v \<notin> set r" unfolding r by (rule tick_not_in_call[OF v(1)])
      show "\<not> sublist r m"
      proof
        assume "sublist r m"
        moreover have "sublist (typosquat rnd q) r" unfolding r by (rule prefix_imp_sublist) simp
        moreover have "sublist m k" unfolding m(1) sublist_def
          by (intro exI[of _ "[v]"]) simp
        ultimately have "sublist (typosquat rnd q) ?body"
          using m(3) by (meson sublist_order.order_trans)
        with fresh show False by blast
      qed
    qed
    with m show "tokenSafe (replacement ` snd ` set S') k"
      unfolding tokenSafe_def by blast
  qed
qed

text \<open>
  Claim C1, as the code has it. The output is the import section, the body after one
  \<open>ReplaceAll\<close> for the key of every entry of the map, in the order of the visit, and
  the accessor functions; what is put in place of a key is the call of the accessor, or
  the plaintext for an entry that is left. No key of the map occurs in the body
  afterwards, when every key is a token in quotes and no replacement holds the delimiter
  of a key or occurs inside the content of a key; that is so in a run that starts with an
  empty map when none of the generated names occurs in the body. The title-case form of a
  key is not looked for.
\<close>

theorem registered_rawTokens_replaced:
  assumes "ObfuscateStrings rnd pick sf gb p Secrets input = Inr (out, S', p')"
    and "(\<forall>(k, w) \<in> set S'. tokenSafe (replacement ` snd ` set S') k)
         \<or> (Secrets = [] \<and> (\<forall>q. \<not> sublist (typosquat rnd q) (bodyOf input)))"
  shows "out = take (splitPoint input) input @ replaceKeys (rearrange pick S') (bodyOf input)
                 @ [nl] @ accessorFuncs sf gb (rearrange pick S')
    \<and> (\<forall>(k, w) \<in> set S'. \<not> Contains (replaceKeys (rearrange pick S') (bodyOf input)) k)"
proof
  from ObfuscateStrings_result(4)[OF assms(1)]
  show "out = take (splitPoint input) input @ replaceKeys (rearrange pick S') (bodyOf input)
                 @ [nl] @ accessorFuncs sf gb (rearrange pick S')" .
next
  let ?R = "replacement ` snd ` set S'"
  from assms(2) have safe: "\<forall>(k, w) \<in> set S'. tokenSafe ?R k"
  proof
    assume "Secrets = [] \<and> (\<forall>q. \<not> sublist (typosquat rnd q) (bodyOf input))"
    with assms(1) show ?thesis using first_run_tokenSafe by blast
  qed
  have all: "\<forall>(k, w) \<in> set (rearrange pick S'). tokenSafe ?R k \<and> replacement w \<in> ?R"
    using safe unfolding rearrange_set by force
  show "\<forall>(k, w) \<in> set S'. \<not> Contains (replaceKeys (rearrange pick S') (bodyOf input)) k"
  proof (clarify)
    fix k w assume "(k, w) \<in> set S'" and c: "Contains (replaceKeys (rearrange pick S') (bodyOf input)) k"
    then have "(k, w) \<in> set (rearrange pick S')" by (simp add: rearrange_set)
    from replaceKeys_removes[OF all this] c show False
      by (simp add: Contains_sublist)
  qed
qed


lemma name_not_in_plain:
  assumes "set s \<inter> set (concat mixedRunes) = {}"
  shows "\<not> sublist (typosquat rnd q) s"
proof
  assume "sublist (typosquat rnd q) s"
  then have sub: "set (typosquat rnd q) \<subseteq> set s" by (rule sublist_set)
  from typosquat_nonempty[of rnd q] obtain c where c: "c \<in> set (typosquat rnd q)"
    by (cases "typosquat rnd q") auto
  with typosquat_chars[of rnd q] have "c \<in> set (concat mixedRunes)" by blast
  moreover from sub c have "c \<in> set s" by blast
  ultimately show False using assms by blast
qed

theorem registered_rawTokens_replaced_witness:
  "ObfuscateStrings (\<lambda>_. 0) [0] Sprintf_s (\<lambda>_. ''B'') 0 [] (''import ()x := '' @ [dquote] @ ''ab'' @ [dquote])
     = Inr (''import ()x := '' @ typosquat (\<lambda>_. 0) 0 @ ''()'' @ [nl]
              @ GenerateStringFunc Sprintf_s (\<lambda>_. ''B'') ''ab'' (typosquat (\<lambda>_. 0) 0) @ [nl],
            [([dquote] @ ''ab'' @ [dquote], [''ab'', typosquat (\<lambda>_. 0) 0])], 128)
   \<and> \<not> Contains (replaceKeys (rearrange [0] [([dquote] @ ''ab'' @ [dquote], [''ab'', typosquat (\<lambda>_. 0) 0])])
                   (bodyOf (''import ()x := '' @ [dquote] @ ''ab'' @ [dquote])))
          ([dquote] @ ''ab'' @ [dquote])"
proof -
  let ?input = "''import ()x := '' @ [dquote] @ ''ab'' @ [dquote]"
  let ?S = "[([dquote] @ ''ab'' @ [dquote], [''ab'', typosquat (\<lambda>_. 0) 0])]"
  note h = ex_run[of "\<lambda>_. 0" Sprintf_s "\<lambda>_. ''B''"]
  have "set (bodyOf ?input) \<inter> set (concat mixedRunes) = {}"
    unfolding ex_body by (simp add: mixedRunes_def letterRunes_def dquote_def)
  then have fresh: "\<forall>q. \<not> sublist (typosquat (\<lambda>_. 0) q) (bodyOf ?input)"
    using name_not_in_plain by blast
  have hyp: "(\<forall>(k, w) \<in> set ?S. tokenSafe (replacement ` snd ` set ?S) k)
         \<or> (([] :: secrets) = [] \<and> (\<forall>q. \<not> sublist (typosquat (\<lambda>_. 0) q) (bodyOf ?input)))"
    using fresh by (intro disjI2 conjI refl)
  note t = registered_rawTokens_replaced[OF h hyp, THEN conjunct2]
  have "([dquote] @ ''ab'' @ [dquote], [''ab'', typosquat (\<lambda>_. 0) 0]) \<in> set ?S"
    by (rule list.set_intros(1))
  from bspec[OF t this]
  have "\<not> Contains (replaceKeys (rearrange [0] ?S) (bodyOf ?input)) ([dquote] @ ''ab'' @ [dquote])"
    unfolding prod.case .
  with h show ?thesis by (rule conjI)
qed


lemma ex3_body:
  "bodyOf (''import ()'' @ [dquote] @ ''secret'' @ [dquote] @ '' '' @ [dquote, dquote] @ ''Secret'' @ [dquote])
     = [dquote] @ ''secret'' @ [dquote] @ '' '' @ [dquote, dquote] @ ''Secret'' @ [dquote]"
  by (simp add: string_eval)

lemma ex3_split:
  "take (splitPoint (''import ()'' @ [dquote] @ ''secret'' @ [dquote] @ '' '' @ [dquote, dquote] @ ''Secret'' @ [dquote]))
     (''import ()'' @ [dquote] @ ''secret'' @ [dquote] @ '' '' @ [dquote, dquote] @ ''Secret'' @ [dquote])
     = ''import ()''"
  by (simp add: string_eval)

lemma ex3_discover:
  "discover rnd 0 [] ([dquote] @ ''secret'' @ [dquote] @ '' '' @ [dquote, dquote] @ ''Secret'' @ [dquote]) tickTypes
     = ([([dquote] @ ''secret'' @ [dquote], [''secret'', typosquat rnd 0])], 128)"
  by (simp add: string_eval)

lemma ex3_replace:
  "ReplaceAll ([dquote] @ ''secret'' @ [dquote] @ '' '' @ [dquote, dquote] @ ''Secret'' @ [dquote])
     ([dquote] @ ''secret'' @ [dquote]) new
     = new @ '' '' @ [dquote, dquote] @ ''Secret'' @ [dquote]"
  by (simp add: dquote_def)

lemma ex3_keys:
  "replaceKeys [([dquote] @ ''secret'' @ [dquote], [''secret'', typosquat rnd 0])]
     ([dquote] @ ''secret'' @ [dquote] @ '' '' @ [dquote, dquote] @ ''Secret'' @ [dquote])
     = typosquat rnd 0 @ ''() '' @ [dquote, dquote] @ ''Secret'' @ [dquote]"
  by (simp add: replaceKeys_def replacement_typosquat ex3_replace[simplified])

text \<open>
  Against claim C1 as stated: the literal \<open>"secret"\<close> is registered and replaced, and
  its title-case form \<open>"Secret"\<close>, which stands in the body behind an empty literal, is
  still in the body afterwards.
\<close>

theorem registered_rawTokens_replaced_counterexample:
  "ObfuscateStrings (\<lambda>_. 0) [0] Sprintf_s (\<lambda>_. ''B'') 0 []
       (''import ()'' @ [dquote] @ ''secret'' @ [dquote] @ '' '' @ [dquote, dquote] @ ''Secret'' @ [dquote])
     = Inr (''import ()'' @ (typosquat (\<lambda>_. 0) 0 @ ''() '' @ [dquote, dquote] @ ''Secret'' @ [dquote]) @ [nl]
              @ GenerateStringFunc Sprintf_s (\<lambda>_. ''B'') ''secret'' (typosquat (\<lambda>_. 0) 0) @ [nl],
            [([dquote] @ ''secret'' @ [dquote], [''secret'', typosquat (\<lambda>_. 0) 0])], 128)
   \<and> Title_ascii ([dquote] @ ''secret'' @ [dquote]) = [dquote] @ ''Secret'' @ [dquote]
   \<and> Contains (typosquat (\<lambda>_. 0) 0 @ ''() '' @ [dquote, dquote] @ ''Secret'' @ [dquote])
        (Title_ascii ([dquote] @ ''secret'' @ [dquote]))"
proof (intro conjI)
  let ?input = "''import ()'' @ [dquote] @ ''secret'' @ [dquote] @ '' '' @ [dquote, dquote] @ ''Secret'' @ [dquote]"
  let ?S = "[([dquote] @ ''secret'' @ [dquote], [''secret'', typosquat (\<lambda>_. 0) 0])]"
  have c: "Contains ?input ''import (''"
    by (simp add: Contains_def)
  have w: "\<forall>(k, w) \<in> set ([] :: secrets). 2 \<le> length w" by simp
  have d: "discover (\<lambda>_. 0) 0 [] (bodyOf ?input) tickTypes = (?S, 128)"
    unfolding ex3_body by (rule ex3_discover)
  have k: "replaceKeys (rearrange [0] ?S) (bodyOf ?input)
      = typosquat (\<lambda>_. 0) 0 @ ''() '' @ [dquote, dquote] @ ''Secret'' @ [dquote]"
    unfolding ex3_body rearrange_single by (rule ex3_keys)
  have a: "accessorFuncs Sprintf_s (\<lambda>_. ''B'') (rearrange [0] ?S)
      = GenerateStringFunc Sprintf_s (\<lambda>_. ''B'') ''secret'' (typosquat (\<lambda>_. 0) 0) @ [nl]"
    unfolding rearrange_single by (rule accessorFuncs_typosquat)
  show "ObfuscateStrings (\<lambda>_. 0) [0] Sprintf_s (\<lambda>_. ''B'') 0 [] ?input
     = Inr (''import ()'' @ (typosquat (\<lambda>_. 0) 0 @ ''() '' @ [dquote, dquote] @ ''Secret'' @ [dquote]) @ [nl]
              @ GenerateStringFunc Sprintf_s (\<lambda>_. ''B'') ''secret'' (typosquat (\<lambda>_. 0) 0) @ [nl],
            ?S, 128)"
    unfolding ObfuscateStrings_returns[OF c w] d fst_conv snd_conv k a ex3_split ..
  show t: "Title_ascii ([dquote] @ ''secret'' @ [dquote]) = [dquote] @ ''Secret'' @ [dquote]"
    by code_simp
  have "sublist ([dquote] @ ''Secret'' @ [dquote])
          ((typosquat (\<lambda>_. 0) 0 @ ''() '' @ [dquote]) @ ([dquote] @ ''Secret'' @ [dquote]) @ [])"
    by (rule sublist_appendI)
  then have "sublist ([dquote] @ ''Secret'' @ [dquote])
          (typosquat (\<lambda>_. 0) 0 @ ''() '' @ [dquote, dquote] @ ''Secret'' @ [dquote])"
    by simp
  then show "Contains (typosquat (\<lambda>_. 0) 0 @ ''() '' @ [dquote, dquote] @ ''Secret'' @ [dquote])
        (Title_ascii ([dquote] @ ''secret'' @ [dquote]))"
    unfolding t Contains_sublist .
qed


section \<open>The filler written by StripFile\<close>









section \<open>What is left of the tagged names\<close>

lemma FindAllString_ob_nonempty: "w \<in> set (FindAllString_ob prev s) \<Longrightarrow> w \<noteq> []"
  by (induction prev s rule: FindAllString_ob.induct) (auto split: if_splits)

lemma FindAllString_ob_word:
  "w \<in> set (FindAllString_ob prev s) \<Longrightarrow> hd w = CHR ''o'' \<and> (\<forall>c \<in> set w. isWord c)"
proof (induction prev s rule: FindAllString_ob.induct)
  case (1 prev)
  then show ?case by simp
next
  case (2 prev c cs)
  show ?case
  proof (cases "\<not> prev \<and> c = CHR ''o'' \<and> (case cs of b # d # _ \<Rightarrow> b = CHR ''b'' \<and> isWord d | _ \<Rightarrow> False)")
    case True
    with "2.prems" consider "w = c # takeWhile isWord cs"
      | "w \<in> set (FindAllString_ob True (dropWhile isWord cs))"
      by auto
    then show ?thesis
    proof cases
      case 1
      have "isWord (CHR ''o'')"
        by (simp add: isWord_def isAlnum_def)
      with 1 True show ?thesis
        by (auto dest: set_takeWhileD)
    next
      case 2
      from "2.IH"(1)[OF True 2] show ?thesis .
    qed
  next
    case False
    with "2.prems" have "w \<in> set (FindAllString_ob (isWord c) cs)" by auto
    from "2.IH"(2)[OF False this] show ?thesis .
  qed
qed

lemma renameAll_Cons:
  "renameAll rnd p (w # ws) input = renameAll rnd (p + 128) ws (ReplaceAll input w (typosquat rnd p))"
  by (simp add: GenerateTyposquatName_eq)

declare renameAll.simps(2) [simp del]

lemma renameAll_position: "snd (renameAll rnd p ws input) = p + 128 * length ws"
  by (induction ws arbitrary: p input) (simp_all add: renameAll_Cons)

lemma renameAll_keeps_absent:
  "u \<noteq> [] \<Longrightarrow> set u \<inter> set (concat mixedRunes) = {} \<Longrightarrow> \<forall>w \<in> set ws. w \<noteq> [] \<Longrightarrow>
   \<not> sublist u s \<Longrightarrow> \<not> sublist u (fst (renameAll rnd p ws s))"
proof (induction ws arbitrary: p s)
  case Nil
  then show ?case by simp
next
  case (Cons w ws)
  from Cons.prems(3) have w: "w \<noteq> []" and rest: "\<forall>w \<in> set ws. w \<noteq> []" by simp_all
  from Cons.prems(2) typosquat_chars[of rnd p] have d: "set u \<inter> set (typosquat rnd p) = {}"
    by blast
  from sublist_ReplaceAll[OF w typosquat_nonempty Cons.prems(1) d] Cons.prems(4)
  have "\<not> sublist u (ReplaceAll s w (typosquat rnd p))" by blast
  from Cons.IH[OF Cons.prems(1,2) rest this] show ?case
    unfolding renameAll_Cons .
qed

lemma renameAll_removes:
  "u \<in> set ws \<Longrightarrow> set u \<inter> set (concat mixedRunes) = {} \<Longrightarrow> \<forall>w \<in> set ws. w \<noteq> [] \<Longrightarrow>
   \<not> sublist u (fst (renameAll rnd p ws s))"
proof (induction ws arbitrary: p s)
  case Nil
  then show ?case by simp
next
  case (Cons w ws)
  from Cons.prems(3) have w: "w \<noteq> []" and rest: "\<forall>w \<in> set ws. w \<noteq> []" by simp_all
  show ?case
  proof (cases "u = w")
    case True
    from Cons.prems(2) typosquat_chars[of rnd p] True have d: "set w \<inter> set (typosquat rnd p) = {}"
      by blast
    from ReplaceAll_removes[OF w typosquat_nonempty d]
    have "\<not> sublist u (ReplaceAll s w (typosquat rnd p))" unfolding True .
    from renameAll_keeps_absent[OF _ Cons.prems(2) rest this] w True show ?thesis
      unfolding renameAll_Cons by blast
  next
    case False
    with Cons.prems(1) have "u \<in> set ws" by simp
    from Cons.IH[OF this Cons.prems(2) rest] show ?thesis
      unfolding renameAll_Cons .
  qed
qed

lemma obFoo_chars: "set ''obFoo'' \<inter> set (concat mixedRunes) = {}"
  by (simp add: mixedRunes_def letterRunes_def)

text \<open>
  The loop on the two sides of a byte that is in none of the tokens, on a text that is
  made of bytes of the names, and on a token alone.
\<close>

lemma renameAll_split:
  "\<forall>w \<in> set ws. w \<noteq> [] \<and> c \<notin> set w \<Longrightarrow>
   fst (renameAll rnd p ws (a @ c # b)) = fst (renameAll rnd p ws a) @ c # fst (renameAll rnd p ws b)"
proof (induction ws arbitrary: p a b)
  case Nil
  show ?case by simp
next
  case (Cons w ws)
  from Cons.prems have w: "w \<noteq> []" "c \<notin> set w" and rest: "\<forall>w \<in> set ws. w \<noteq> [] \<and> c \<notin> set w"
    by simp_all
  show ?case
    unfolding renameAll_Cons ReplaceAll_split[OF w] by (rule Cons.IH[OF rest])
qed

lemma renameAll_Nil: "\<forall>w \<in> set ws. w \<noteq> [] \<Longrightarrow> fst (renameAll rnd p ws []) = []"
  by (induction ws arbitrary: p) (simp_all add: renameAll_Cons)

lemma renameAll_name:
  "\<forall>w \<in> set ws. w \<noteq> [] \<and> hd w \<notin> set (concat mixedRunes) \<Longrightarrow> set s \<subseteq> set (concat mixedRunes) \<Longrightarrow>
   fst (renameAll rnd p ws s) = s"
proof (induction ws arbitrary: p)
  case Nil
  show ?case by simp
next
  case (Cons w ws)
  from Cons.prems(1) have w: "w \<noteq> []" and h: "hd w \<notin> set (concat mixedRunes)"
    and rest: "\<forall>w \<in> set ws. w \<noteq> [] \<and> hd w \<notin> set (concat mixedRunes)"
    by simp_all
  from h Cons.prems(2) have "hd w \<notin> set s" by blast
  from ReplaceAll_no_start[OF w this] Cons.IH[OF rest Cons.prems(2)] show ?case
    unfolding renameAll_Cons by simp
qed

lemma renameAll_token:
  "i < length ws \<Longrightarrow> ws ! i = t \<Longrightarrow> \<forall>j < i. \<not> sublist (ws ! j) t \<Longrightarrow>
   \<forall>w \<in> set ws. w \<noteq> [] \<and> hd w \<notin> set (concat mixedRunes) \<Longrightarrow>
   fst (renameAll rnd p ws t) = typosquat rnd (p + 128 * i)"
proof (induction ws arbitrary: i p)
  case Nil
  then show ?case by simp
next
  case (Cons w ws)
  from Cons.prems(4) have w: "w \<noteq> []"
    and rest: "\<forall>w \<in> set ws. w \<noteq> [] \<and> hd w \<notin> set (concat mixedRunes)"
    by simp_all
  show ?case
  proof (cases i)
    case 0
    with Cons.prems(2) have t: "t = w" by simp
    have "fst (renameAll rnd (p + 128) ws (typosquat rnd p)) = typosquat rnd p"
      by (rule renameAll_name[OF rest typosquat_chars])
    then show ?thesis
      unfolding renameAll_Cons t ReplaceAll_self[OF w] using 0 by simp
  next
    case (Suc i')
    from Cons.prems(3) Suc have "\<not> sublist ((w # ws) ! 0) t" by blast
    then have "\<not> sublist w t" by simp
    then have keep: "ReplaceAll t w (typosquat rnd p) = t"
      by (rule ReplaceAll_absent)
    from Cons.prems(1,2) Suc have i': "i' < length ws" and n: "ws ! i' = t" by simp_all
    have before: "\<forall>j < i'. \<not> sublist (ws ! j) t"
    proof (intro allI impI)
      fix j assume "j < i'"
      then have "Suc j < i" using Suc by simp
      with Cons.prems(3) have "\<not> sublist ((w # ws) ! Suc j) t" by blast
      then show "\<not> sublist (ws ! j) t" by simp
    qed
    from Cons.IH[OF i' n before rest, of "p + 128"] show ?thesis
      unfolding renameAll_Cons keep using Suc by (simp add: add.assoc)
  qed
qed

text \<open>
  A token that stands between bytes that are no word characters, or at an end of the text:
  the loop rewrites the text before it and the text after it each on its own, and puts
  the name drawn at the turn of the token in its place, when no token that is part of it
  is taken before it.
\<close>

lemma renameAll_occurrence:
  assumes ws: "\<forall>w \<in> set ws. w \<noteq> [] \<and> hd w \<notin> set (concat mixedRunes) \<and> (\<forall>c \<in> set w. isWord c)"
    and i: "i < length ws" "ws ! i = t" "\<forall>j < i. \<not> sublist (ws ! j) t"
    and pre: "pre = [] \<or> \<not> isWord (last pre)"
    and post: "post = [] \<or> \<not> isWord (hd post)"
  shows "fst (renameAll rnd p ws (pre @ t @ post))
           = fst (renameAll rnd p ws pre) @ typosquat rnd (p + 128 * i) @ fst (renameAll rnd p ws post)"
proof -
  let ?R = "\<lambda>s. fst (renameAll rnd p ws s)"
  from ws have ne: "\<forall>w \<in> set ws. w \<noteq> []"
    and st: "\<forall>w \<in> set ws. w \<noteq> [] \<and> hd w \<notin> set (concat mixedRunes)"
    by simp_all
  have cut: "?R (a @ c # b) = ?R a @ c # ?R b" if "\<not> isWord c" for a c b
  proof (rule renameAll_split)
    from ws that show "\<forall>w \<in> set ws. w \<noteq> [] \<and> c \<notin> set w" by blast
  qed
  have nil: "?R [] = []"
    by (rule renameAll_Nil[OF ne])
  have left: "?R (pre @ x) = ?R pre @ ?R x" for x
  proof (cases "pre = []")
    case True
    then show ?thesis by (simp add: nil)
  next
    case False
    with pre have c: "\<not> isWord (last pre)" by simp
    from False have "pre = butlast pre @ [last pre]" by simp
    then obtain a where a: "pre = a @ [last pre]" ..
    have "?R (pre @ x) = ?R (a @ last pre # x)"
      by (subst a) simp
    also have "\<dots> = ?R a @ last pre # ?R x"
      by (rule cut[OF c])
    finally have whole: "?R (pre @ x) = ?R a @ last pre # ?R x" .
    have "?R (a @ [last pre]) = ?R a @ [last pre]"
      using cut[OF c, of a "[]"] nil by simp
    with a have "?R pre = ?R a @ [last pre]"
      by simp
    with whole show ?thesis by simp
  qed
  have right: "?R (x @ post) = ?R x @ ?R post" for x
  proof (cases post)
    case Nil
    then show ?thesis by (simp add: nil)
  next
    case (Cons d post')
    with post have d: "\<not> isWord d" by simp
    have "?R post = d # ?R post'"
      using cut[OF d, of "[]" post'] Cons nil by simp
    with cut[OF d, of x post'] Cons show ?thesis by simp
  qed
  have "?R t = typosquat rnd (p + 128 * i)"
    by (rule renameAll_token[OF i st])
  then show ?thesis
    unfolding left right by simp
qed

text \<open>
  Claim C8, as the code has it. Whatever names are drawn, when \<open>obFoo\<close> is among the
  tokens found, neither \<open>obFoo\<close> nor \<open>obFooBar\<close> occurs in the output. Where \<open>obFoo\<close>
  stands in the text as a token, the output has in its place the name drawn at the turn of
  \<open>obFoo\<close>, the same for every such place, between what the loop makes of the text before
  and of the text after, when no token that is part of \<open>obFoo\<close> is taken before it.
\<close>

theorem ObfuscateFuncVars_obFoo:
  "(''obFoo'' \<in> set (FindAllString_ob False input) \<longrightarrow>
      \<not> Contains (fst (ObfuscateFuncVars rnd p input)) ''obFoo''
    \<and> \<not> Contains (fst (ObfuscateFuncVars rnd p input)) ''obFooBar'')
   \<and> (i < length (ObfuscateFuncVars_words input) \<and> ObfuscateFuncVars_words input ! i = ''obFoo''
      \<and> (\<forall>j < i. \<not> sublist (ObfuscateFuncVars_words input ! j) ''obFoo'')
      \<and> input = pre @ ''obFoo'' @ post
      \<and> (pre = [] \<or> \<not> isWord (last pre)) \<and> (post = [] \<or> \<not> isWord (hd post)) \<longrightarrow>
        fst (ObfuscateFuncVars rnd p input)
          = fst (renameAll rnd p (ObfuscateFuncVars_words input) pre)
              @ typosquat rnd (p + 128 * i)
              @ fst (renameAll rnd p (ObfuscateFuncVars_words input) post))
   \<and> (i < length (ObfuscateFuncVars_words input) \<and> ObfuscateFuncVars_words input ! i = ''obFoo''
      \<and> (\<forall>j < i. \<not> sublist (ObfuscateFuncVars_words input ! j) ''obFoo'')
      \<and> input = pre @ ''obFoo'' @ mid @ ''obFoo'' @ post
      \<and> (pre = [] \<or> \<not> isWord (last pre)) \<and> mid \<noteq> [] \<and> \<not> isWord (hd mid) \<and> \<not> isWord (last mid)
      \<and> (post = [] \<or> \<not> isWord (hd post)) \<longrightarrow>
        fst (ObfuscateFuncVars rnd p input)
          = fst (renameAll rnd p (ObfuscateFuncVars_words input) pre)
              @ typosquat rnd (p + 128 * i)
              @ fst (renameAll rnd p (ObfuscateFuncVars_words input) mid)
              @ typosquat rnd (p + 128 * i)
              @ fst (renameAll rnd p (ObfuscateFuncVars_words input) post))"
proof -
  let ?ws = "ObfuscateFuncVars_words input"
  have ws: "set ?ws = set (FindAllString_ob False input)"
    by (simp add: ObfuscateFuncVars_words_def Unique_set ReverseStringArray_def)
  have ne: "\<forall>w \<in> set ?ws. w \<noteq> []"
    unfolding ws using FindAllString_ob_nonempty by blast
  have o: "CHR ''o'' \<notin> set (concat mixedRunes)"
    by (simp add: mixedRunes_def letterRunes_def)
  have shape: "\<forall>w \<in> set ?ws. w \<noteq> [] \<and> hd w \<notin> set (concat mixedRunes) \<and> (\<forall>c \<in> set w. isWord c)"
    unfolding ws using FindAllString_ob_nonempty FindAllString_ob_word o by metis
  have first: "\<not> Contains (fst (ObfuscateFuncVars rnd p input)) ''obFoo''
    \<and> \<not> Contains (fst (ObfuscateFuncVars rnd p input)) ''obFooBar''"
    if "''obFoo'' \<in> set (FindAllString_ob False input)"
  proof -
    from that have "''obFoo'' \<in> set ?ws" by (simp add: ws)
    from renameAll_removes[OF this obFoo_chars ne]
    have a: "\<not> sublist ''obFoo'' (fst (ObfuscateFuncVars rnd p input))"
      by (simp add: ObfuscateFuncVars_def)
    have "sublist ''obFoo'' ''obFooBar''"
      by (rule prefix_imp_sublist) simp
    with a have "\<not> sublist ''obFooBar'' (fst (ObfuscateFuncVars rnd p input))"
      by (meson sublist_order.order_trans)
    with a show ?thesis
      by (simp add: Contains_sublist)
  qed
  have one: "fst (ObfuscateFuncVars rnd p input)
          = fst (renameAll rnd p ?ws pre) @ typosquat rnd (p + 128 * i) @ fst (renameAll rnd p ?ws post)"
    if "i < length ?ws" "?ws ! i = ''obFoo''" "\<forall>j < i. \<not> sublist (?ws ! j) ''obFoo''"
      "input = pre @ ''obFoo'' @ post" "pre = [] \<or> \<not> isWord (last pre)" "post = [] \<or> \<not> isWord (hd post)"
  proof -
    have "fst (renameAll rnd p ?ws (pre @ ''obFoo'' @ post))
          = fst (renameAll rnd p ?ws pre) @ typosquat rnd (p + 128 * i) @ fst (renameAll rnd p ?ws post)"
      by (rule renameAll_occurrence[OF shape that(1,2,3,5,6)])
    then show ?thesis
      unfolding ObfuscateFuncVars_def using that(4) by simp
  qed
  have two: "fst (ObfuscateFuncVars rnd p input)
          = fst (renameAll rnd p ?ws pre) @ typosquat rnd (p + 128 * i) @ fst (renameAll rnd p ?ws mid)
              @ typosquat rnd (p + 128 * i) @ fst (renameAll rnd p ?ws post)"
    if "i < length ?ws" "?ws ! i = ''obFoo''" "\<forall>j < i. \<not> sublist (?ws ! j) ''obFoo''"
      "input = pre @ ''obFoo'' @ mid @ ''obFoo'' @ post" "pre = [] \<or> \<not> isWord (last pre)"
      "mid \<noteq> []" "\<not> isWord (hd mid)" "\<not> isWord (last mid)" "post = [] \<or> \<not> isWord (hd post)"
  proof -
    from that(6,7) have h: "mid @ ''obFoo'' @ post = [] \<or> \<not> isWord (hd (mid @ ''obFoo'' @ post))"
      by simp
    from that(8) have l: "mid = [] \<or> \<not> isWord (last mid)" by simp
    have "fst (renameAll rnd p ?ws (pre @ ''obFoo'' @ (mid @ ''obFoo'' @ post)))
          = fst (renameAll rnd p ?ws pre) @ typosquat rnd (p + 128 * i)
              @ fst (renameAll rnd p ?ws (mid @ ''obFoo'' @ post))"
      by (rule renameAll_occurrence[OF shape that(1,2,3,5) h])
    moreover have "fst (renameAll rnd p ?ws (mid @ ''obFoo'' @ post))
          = fst (renameAll rnd p ?ws mid) @ typosquat rnd (p + 128 * i) @ fst (renameAll rnd p ?ws post)"
      by (rule renameAll_occurrence[OF shape that(1,2,3) l that(9)])
    ultimately show ?thesis
      unfolding ObfuscateFuncVars_def using that(4) by simp
  qed
  from first one two show ?thesis by blast
qed

lemma ex5_words:
  "ObfuscateFuncVars_words ''obFoo obFooBar obMain'' = [''obMain'', ''obFooBar'', ''obFoo'']"
  by code_simp

lemma ex5_rest:
  assumes "CHR ''o'' \<notin> set n0" and "CHR ''o'' \<notin> set n1"
  shows "ReplaceAll (ReplaceAll (ReplaceAll '' obFooBar obMain'' ''obMain'' n0) ''obFooBar'' n1) ''obFoo'' n2
           = '' '' @ n1 @ '' '' @ n0"
proof -
  have 1: "ReplaceAll '' obFooBar obMain'' ''obMain'' n0 = '' '' @ ''obFooBar'' @ '' '' @ n0"
    by simp
  have "ReplaceAll ('' '' @ ''obFooBar'' @ '' '' @ n0) ''obFooBar'' n1
          = '' '' @ n1 @ ReplaceAll ('' '' @ n0) ''obFooBar'' n1"
    by (rule ReplaceAll_occurrence) simp_all
  also have "ReplaceAll ('' '' @ n0) ''obFooBar'' n1 = '' '' @ n0"
    by (rule ReplaceAll_no_start) (use assms in simp_all)
  finally have 2: "ReplaceAll ('' '' @ ''obFooBar'' @ '' '' @ n0) ''obFooBar'' n1 = '' '' @ n1 @ '' '' @ n0" .
  have 3: "ReplaceAll ('' '' @ n1 @ '' '' @ n0) ''obFoo'' n2 = '' '' @ n1 @ '' '' @ n0"
    by (rule ReplaceAll_no_start) (use assms in simp_all)
  show ?thesis
    unfolding 1 2 3 ..
qed

lemma o_not_in_name: "CHR ''o'' \<notin> set (typosquat rnd p)"
  using typosquat_char[of "CHR ''o''" rnd p] by auto

theorem ObfuscateFuncVars_obFoo_witness:
  "''obFoo'' \<in> set (FindAllString_ob False ''obFoo obFooBar obMain'')
   \<and> \<not> Contains (fst (ObfuscateFuncVars (\<lambda>i. i div 128) 0 ''obFoo obFooBar obMain'')) ''obFoo''
   \<and> \<not> Contains (fst (ObfuscateFuncVars (\<lambda>i. i div 128) 0 ''obFoo obFooBar obMain'')) ''obFooBar''
   \<and> ObfuscateFuncVars_words ''obFoo obFooBar obMain'' = [''obMain'', ''obFooBar'', ''obFoo'']
   \<and> fst (ObfuscateFuncVars (\<lambda>i. i div 128) 0 ''obFoo obFooBar obMain'')
       = typosquat (\<lambda>i. i div 128) 256 @ '' '' @ typosquat (\<lambda>i. i div 128) 128
           @ '' '' @ typosquat (\<lambda>i. i div 128) 0
   \<and> fst (ObfuscateFuncVars (\<lambda>i. i div 128) 0 ''obFoo = obFoo;'')
       = typosquat (\<lambda>i. i div 128) 0 @ '' = '' @ typosquat (\<lambda>i. i div 128) 0 @ '';''"
proof -
  let ?rnd = "\<lambda>i :: nat. i div 128"
  let ?ws = "[''obMain'', ''obFooBar'', ''obFoo'']"
  have f: "FindAllString_ob False ''obFoo obFooBar obMain'' = [''obFoo'', ''obFooBar'', ''obMain'']"
    by code_simp
  have h1: "''obFoo'' \<in> set (FindAllString_ob False ''obFoo obFooBar obMain'')"
    unfolding f by simp
  note t = ObfuscateFuncVars_obFoo[of "''obFoo obFooBar obMain''" ?rnd 0 2 "[]" "'' obFooBar obMain''"]
  from t h1 have a: "\<not> Contains (fst (ObfuscateFuncVars ?rnd 0 ''obFoo obFooBar obMain'')) ''obFoo''
    \<and> \<not> Contains (fst (ObfuscateFuncVars ?rnd 0 ''obFoo obFooBar obMain'')) ''obFooBar''"
    by blast
  have n0: "\<not> sublist ''obMain'' ''obFoo''" and n1: "\<not> sublist ''obFooBar'' ''obFoo''"
    by (simp_all add: Contains_sublist[symmetric] Contains_def)
  have h2: "2 < length (ObfuscateFuncVars_words ''obFoo obFooBar obMain'')
      \<and> ObfuscateFuncVars_words ''obFoo obFooBar obMain'' ! 2 = ''obFoo''
      \<and> (\<forall>j < 2. \<not> sublist (ObfuscateFuncVars_words ''obFoo obFooBar obMain'' ! j) ''obFoo'')
      \<and> ''obFoo obFooBar obMain'' = [] @ ''obFoo'' @ '' obFooBar obMain''
      \<and> (([] :: string) = [] \<or> \<not> isWord (last [])) \<and> ('' obFooBar obMain'' = [] \<or> \<not> isWord (hd '' obFooBar obMain''))"
    unfolding ex5_words using n0 n1 by (simp add: isWord_def isAlnum_def less_Suc_eq numeral_2_eq_2)
  from t h2 have b: "fst (ObfuscateFuncVars ?rnd 0 ''obFoo obFooBar obMain'')
          = fst (renameAll ?rnd 0 (ObfuscateFuncVars_words ''obFoo obFooBar obMain'') [])
              @ typosquat ?rnd (0 + 128 * 2)
              @ fst (renameAll ?rnd 0 (ObfuscateFuncVars_words ''obFoo obFooBar obMain'') '' obFooBar obMain'')"
    by blast
  have "fst (renameAll ?rnd 0 ?ws '' obFooBar obMain'')
          = '' '' @ typosquat ?rnd (0 + 128) @ '' '' @ typosquat ?rnd 0"
    unfolding renameAll_Cons renameAll.simps fst_conv
    by (rule ex5_rest[OF o_not_in_name o_not_in_name])
  then have c: "fst (renameAll ?rnd 0 ?ws '' obFooBar obMain'') = '' '' @ typosquat ?rnd 128 @ '' '' @ typosquat ?rnd 0"
    by simp
  have d: "fst (renameAll ?rnd 0 ?ws []) = []"
    by (simp add: renameAll_Cons)
  from b have r: "fst (ObfuscateFuncVars ?rnd 0 ''obFoo obFooBar obMain'')
       = typosquat ?rnd 256 @ '' '' @ typosquat ?rnd 128 @ '' '' @ typosquat ?rnd 0"
    unfolding ex5_words c d by simp
  have w2: "ObfuscateFuncVars_words ''obFoo = obFoo;'' = [''obFoo'']"
    by code_simp
  note t2 = ObfuscateFuncVars_obFoo[where input = "''obFoo = obFoo;''" and rnd = ?rnd and p = 0
      and i = 0 and pre = "[]" and mid = "'' = ''" and post = "'';''"]
  have h3: "0 < length (ObfuscateFuncVars_words ''obFoo = obFoo;'')
      \<and> ObfuscateFuncVars_words ''obFoo = obFoo;'' ! 0 = ''obFoo''
      \<and> (\<forall>j < 0. \<not> sublist (ObfuscateFuncVars_words ''obFoo = obFoo;'' ! j) ''obFoo'')
      \<and> ''obFoo = obFoo;'' = [] @ ''obFoo'' @ '' = '' @ ''obFoo'' @ '';''
      \<and> (([] :: string) = [] \<or> \<not> isWord (last [])) \<and> '' = '' \<noteq> [] \<and> \<not> isWord (hd '' = '') \<and> \<not> isWord (last '' = '')
      \<and> ('';'' = [] \<or> \<not> isWord (hd '';''))"
    unfolding w2 by (simp add: isWord_def isAlnum_def)
  from t2 h3 have "fst (ObfuscateFuncVars ?rnd 0 ''obFoo = obFoo;'')
          = fst (renameAll ?rnd 0 (ObfuscateFuncVars_words ''obFoo = obFoo;'') [])
              @ typosquat ?rnd (0 + 128 * 0)
              @ fst (renameAll ?rnd 0 (ObfuscateFuncVars_words ''obFoo = obFoo;'') '' = '')
              @ typosquat ?rnd (0 + 128 * 0)
              @ fst (renameAll ?rnd 0 (ObfuscateFuncVars_words ''obFoo = obFoo;'') '';'')"
    by blast
  then have r2: "fst (ObfuscateFuncVars ?rnd 0 ''obFoo = obFoo;'')
       = typosquat ?rnd 0 @ '' = '' @ typosquat ?rnd 0 @ '';''"
    unfolding w2 by (simp add: renameAll_Cons)
  from h1 a ex5_words r r2 show ?thesis by blast
qed

lemma ex4_first:
  "ReplaceAll ''obFoo obFooBar obF'' ''obF'' n = n @ ''oo '' @ n @ ''ooBar '' @ n"
  by simp

lemma ex4_rest:
  assumes "CHR ''b'' \<notin> set n"
  shows "\<not> sublist ''obFooBar'' (n @ ''oo '' @ n @ ''ooBar '' @ n)"
    and "\<not> sublist ''obFoo'' (n @ ''oo '' @ n @ ''ooBar '' @ n)"
proof -
  have b: "CHR ''b'' \<notin> set (n @ ''oo '' @ n @ ''ooBar '' @ n)"
    using assms by simp
  show "\<not> sublist ''obFooBar'' (n @ ''oo '' @ n @ ''ooBar '' @ n)"
  proof
    assume "sublist ''obFooBar'' (n @ ''oo '' @ n @ ''ooBar '' @ n)"
    then have "set ''obFooBar'' \<subseteq> set (n @ ''oo '' @ n @ ''ooBar '' @ n)" by (rule sublist_set)
    with b show False by simp
  qed
  show "\<not> sublist ''obFoo'' (n @ ''oo '' @ n @ ''ooBar '' @ n)"
  proof
    assume "sublist ''obFoo'' (n @ ''oo '' @ n @ ''ooBar '' @ n)"
    then have "set ''obFoo'' \<subseteq> set (n @ ''oo '' @ n @ ''ooBar '' @ n)" by (rule sublist_set)
    with b show False by simp
  qed
qed

text \<open>
  Against claim C8 as stated: the text holds both tokens and, after them, the token
  \<open>obF\<close>. It is the last one found, so it is taken first, and every \<open>obFoo\<close> becomes the
  name drawn for \<open>obF\<close> followed by \<open>oo\<close>: no name of its own is put in its place.
\<close>

theorem ObfuscateFuncVars_obFoo_counterexample:
  "FindAllString_ob False ''obFoo obFooBar obF'' = [''obFoo'', ''obFooBar'', ''obF'']
   \<and> ObfuscateFuncVars_words ''obFoo obFooBar obF'' = [''obF'', ''obFooBar'', ''obFoo'']
   \<and> ObfuscateFuncVars (\<lambda>i. i div 128) 0 ''obFoo obFooBar obF''
       = (typosquat (\<lambda>i. i div 128) 0 @ ''oo '' @ typosquat (\<lambda>i. i div 128) 0 @ ''ooBar ''
            @ typosquat (\<lambda>i. i div 128) 0, 384)"
proof (intro conjI)
  show "FindAllString_ob False ''obFoo obFooBar obF'' = [''obFoo'', ''obFooBar'', ''obF'']"
    by code_simp
  show w: "ObfuscateFuncVars_words ''obFoo obFooBar obF'' = [''obF'', ''obFooBar'', ''obFoo'']"
    by code_simp
  let ?n = "typosquat (\<lambda>i. i div 128) 0"
  let ?s = "?n @ ''oo '' @ ?n @ ''ooBar '' @ ?n"
  have "CHR ''b'' \<notin> set ?n"
    using typosquat_char[of "CHR ''b''" "\<lambda>i. i div 128" 0] by auto
  note r = ex4_rest[OF this]
  have 1: "ReplaceAll ''obFoo obFooBar obF'' ''obF'' ?n = ?s"
    by (rule ex4_first)
  have 2: "ReplaceAll ?s ''obFooBar'' x = ?s" for x
    by (rule ReplaceAll_absent[OF r(1)])
  have 3: "ReplaceAll ?s ''obFoo'' x = ?s" for x
    by (rule ReplaceAll_absent[OF r(2)])
  show "ObfuscateFuncVars (\<lambda>i. i div 128) 0 ''obFoo obFooBar obF'' = (?s, 384)"
    unfolding ObfuscateFuncVars_def w renameAll_Cons 1 2 3 by simp
qed


end
